theory Spec2Isabelle
  imports Main "HOL-Library.Word" "HOL-Library.Multiset"
begin

unbundle bit_operations_syntax

section \<open>Bytes, buffers and strings\<close>

text \<open>
  A \<open>Uint8Array\<close> is a view on a region of an \<open>ArrayBuffer\<close>: it does not own its
  bytes. Buffers live in an explicit store (a map from buffer identities to their bytes),
  so that two views on one buffer see each other's writes. A view is well formed in a
  store when \<open>byteOffset + byteLength\<close> does not exceed the length of its buffer.

  Text (the \<open>text\<close> of an output file) is a JavaScript string, a sequence of UTF-16 code
  units. Paths and hexadecimal digests, which are only compared, split at \<open>/\<close> and tested
  for a suffix, are Isabelle strings.
\<close>

type_synonym byte = "8 word"

type_synonym heap = "nat \<Rightarrow> byte list"

record Uint8Array =
  buffer :: nat
  byteOffset :: nat
  byteLength :: nat

definition view_bytes :: "heap \<Rightarrow> Uint8Array \<Rightarrow> byte list" where
  "view_bytes h v = take (byteLength v) (drop (byteOffset v) (h (buffer v)))"

text \<open>\<open>new Uint8Array(buf)[i] = b\<close>: a write into a buffer of the store.\<close>

definition poke :: "heap \<Rightarrow> nat \<Rightarrow> nat \<Rightarrow> byte \<Rightarrow> heap" where
  "poke h a i b = h(a := (h a)[i := b])"

subsection \<open>UTF-8\<close>

text \<open>
  \<open>Buffer.from(text, 'utf-8')\<close> and \<open>hash.update(text)\<close> encode a string as UTF-8: a
  surrogate pair is one code point of four bytes, a lone surrogate becomes U+FFFD
  (\<open>EF BF BD\<close>).
\<close>

definition utf8_bytes :: "nat \<Rightarrow> byte list" where
  "utf8_bytes cp =
     (if cp < 0x80 then [of_nat cp]
      else if cp < 0x800 then [of_nat (0xC0 + cp div 64), of_nat (0x80 + cp mod 64)]
      else if cp < 0x10000 then
        [of_nat (0xE0 + cp div 4096), of_nat (0x80 + cp div 64 mod 64), of_nat (0x80 + cp mod 64)]
      else
        [of_nat (0xF0 + cp div 262144), of_nat (0x80 + cp div 4096 mod 64),
         of_nat (0x80 + cp div 64 mod 64), of_nat (0x80 + cp mod 64)])"

fun utf8_encode :: "16 word list \<Rightarrow> byte list" where
  "utf8_encode [] = []"
| "utf8_encode (u # us) =
     (if 0xD800 \<le> unat u \<and> unat u \<le> 0xDBFF then
        (case us of
           [] \<Rightarrow> [0xEF, 0xBF, 0xBD]
         | v # vs \<Rightarrow>
             if 0xDC00 \<le> unat v \<and> unat v \<le> 0xDFFF then
               utf8_bytes (0x10000 + (unat u - 0xD800) * 1024 + (unat v - 0xDC00)) @ utf8_encode vs
             else [0xEF, 0xBF, 0xBD] @ utf8_encode us)
      else if 0xDC00 \<le> unat u \<and> unat u \<le> 0xDFFF then [0xEF, 0xBF, 0xBD] @ utf8_encode us
      else utf8_bytes (unat u) @ utf8_encode us)"

text \<open>
  \<open>buf.toString('utf-8')\<close> decodes with replacement: every maximal ill-formed part
  becomes U+FFFD, and the byte that ended it is read again. The decoder keeps the code
  point read so far, the number of continuation bytes still needed and the range allowed
  for the next byte. A code point above U+FFFF is written as a surrogate pair.
\<close>

definition code_units :: "nat \<Rightarrow> 16 word list" where
  "code_units cp =
     (if cp < 0x10000 then [of_nat cp]
      else [of_nat (0xD800 + (cp - 0x10000) div 1024), of_nat (0xDC00 + (cp - 0x10000) mod 1024)])"

function utf8_decode_from :: "nat \<Rightarrow> nat \<Rightarrow> nat \<Rightarrow> nat \<Rightarrow> byte list \<Rightarrow> 16 word list" where
  "utf8_decode_from cp needed lo hi [] = (if needed = 0 then [] else [0xFFFD])"
| "utf8_decode_from cp needed lo hi (b # bs) =
     (let x = unat b in
      if needed = 0 then
        (if x \<le> 0x7F then of_nat x # utf8_decode_from 0 0 0x80 0xBF bs
         else if 0xC2 \<le> x \<and> x \<le> 0xDF then utf8_decode_from (x - 0xC0) 1 0x80 0xBF bs
         else if 0xE0 \<le> x \<and> x \<le> 0xEF then
           utf8_decode_from (x - 0xE0) 2 (if x = 0xE0 then 0xA0 else 0x80)
             (if x = 0xED then 0x9F else 0xBF) bs
         else if 0xF0 \<le> x \<and> x \<le> 0xF4 then
           utf8_decode_from (x - 0xF0) 3 (if x = 0xF0 then 0x90 else 0x80)
             (if x = 0xF4 then 0x8F else 0xBF) bs
         else 0xFFFD # utf8_decode_from 0 0 0x80 0xBF bs)
      else if x < lo \<or> hi < x then 0xFFFD # utf8_decode_from 0 0 0x80 0xBF (b # bs)
      else if needed = 1 then code_units (cp * 64 + (x - 0x80)) @ utf8_decode_from 0 0 0x80 0xBF bs
      else utf8_decode_from (cp * 64 + (x - 0x80)) (needed - 1) 0x80 0xBF bs)"
  by pat_completeness auto
termination
  by (relation "measure (\<lambda>(cp, needed, lo, hi, bs). 2 * length bs + (if needed = 0 then 0 else 1))")
     auto

definition utf8_decode :: "byte list \<Rightarrow> 16 word list" where
  "utf8_decode bs = utf8_decode_from 0 0 0x80 0xBF bs"

subsection \<open>SHA-256\<close>

text \<open>
  \<open>createHash('sha256').update(text).digest('hex')\<close> is SHA-256 (FIPS 180-4) of the
  UTF-8 bytes of \<open>text\<close>, written as 64 lower-case hexadecimal digits.
\<close>

text \<open>A 32-bit word from its two 16-bit halves.\<close>

definition w32 :: "16 word \<Rightarrow> 16 word \<Rightarrow> 32 word" where
  "w32 hi lo = push_bit 16 (ucast hi) OR ucast lo"

definition sha256_K :: "32 word list" where
  "sha256_K =
   [w32 0x428a 0x2f98, w32 0x7137 0x4491, w32 0xb5c0 0xfbcf, w32 0xe9b5 0xdba5,
    w32 0x3956 0xc25b, w32 0x59f1 0x11f1, w32 0x923f 0x82a4, w32 0xab1c 0x5ed5,
    w32 0xd807 0xaa98, w32 0x1283 0x5b01, w32 0x2431 0x85be, w32 0x550c 0x7dc3,
    w32 0x72be 0x5d74, w32 0x80de 0xb1fe, w32 0x9bdc 0x06a7, w32 0xc19b 0xf174,
    w32 0xe49b 0x69c1, w32 0xefbe 0x4786, w32 0x0fc1 0x9dc6, w32 0x240c 0xa1cc,
    w32 0x2de9 0x2c6f, w32 0x4a74 0x84aa, w32 0x5cb0 0xa9dc, w32 0x76f9 0x88da,
    w32 0x983e 0x5152, w32 0xa831 0xc66d, w32 0xb003 0x27c8, w32 0xbf59 0x7fc7,
    w32 0xc6e0 0x0bf3, w32 0xd5a7 0x9147, w32 0x06ca 0x6351, w32 0x1429 0x2967,
    w32 0x27b7 0x0a85, w32 0x2e1b 0x2138, w32 0x4d2c 0x6dfc, w32 0x5338 0x0d13,
    w32 0x650a 0x7354, w32 0x766a 0x0abb, w32 0x81c2 0xc92e, w32 0x9272 0x2c85,
    w32 0xa2bf 0xe8a1, w32 0xa81a 0x664b, w32 0xc24b 0x8b70, w32 0xc76c 0x51a3,
    w32 0xd192 0xe819, w32 0xd699 0x0624, w32 0xf40e 0x3585, w32 0x106a 0xa070,
    w32 0x19a4 0xc116, w32 0x1e37 0x6c08, w32 0x2748 0x774c, w32 0x34b0 0xbcb5,
    w32 0x391c 0x0cb3, w32 0x4ed8 0xaa4a, w32 0x5b9c 0xca4f, w32 0x682e 0x6ff3,
    w32 0x748f 0x82ee, w32 0x78a5 0x636f, w32 0x84c8 0x7814, w32 0x8cc7 0x0208,
    w32 0x90be 0xfffa, w32 0xa450 0x6ceb, w32 0xbef9 0xa3f7, w32 0xc671 0x78f2]"

record sha256_state =
  ha :: "32 word"
  hb :: "32 word"
  hc :: "32 word"
  hd' :: "32 word"
  he :: "32 word"
  hf :: "32 word"
  hg :: "32 word"
  hh :: "32 word"

definition sha256_H0 :: sha256_state where
  "sha256_H0 =
     \<lparr>ha = 0x6a09e667, hb = 0xbb67ae85, hc = 0x3c6ef372, hd' = 0xa54ff53a,
      he = 0x510e527f, hf = 0x9b05688c, hg = 0x1f83d9ab, hh = 0x5be0cd19\<rparr>"

definition Ch :: "32 word \<Rightarrow> 32 word \<Rightarrow> 32 word \<Rightarrow> 32 word" where
  "Ch x y z = (x AND y) XOR (NOT x AND z)"

definition Maj :: "32 word \<Rightarrow> 32 word \<Rightarrow> 32 word \<Rightarrow> 32 word" where
  "Maj x y z = (x AND y) XOR (x AND z) XOR (y AND z)"

definition Sigma0 :: "32 word \<Rightarrow> 32 word" where
  "Sigma0 x = word_rotr 2 x XOR word_rotr 13 x XOR word_rotr 22 x"

definition Sigma1 :: "32 word \<Rightarrow> 32 word" where
  "Sigma1 x = word_rotr 6 x XOR word_rotr 11 x XOR word_rotr 25 x"

definition sigma0 :: "32 word \<Rightarrow> 32 word" where
  "sigma0 x = word_rotr 7 x XOR word_rotr 18 x XOR drop_bit 3 x"

definition sigma1 :: "32 word \<Rightarrow> 32 word" where
  "sigma1 x = word_rotr 17 x XOR word_rotr 19 x XOR drop_bit 10 x"

definition be64 :: "64 word \<Rightarrow> byte list" where
  "be64 x = map (\<lambda>i. ucast (drop_bit (8 * (7 - i)) x)) [0..<8]"

text \<open>Padding: the byte \<open>80\<close>, zeros up to 56 modulo 64, the length in bits on 64 bits.\<close>

definition sha256_pad :: "byte list \<Rightarrow> byte list" where
  "sha256_pad m =
     m @ [0x80] @ replicate ((119 - length m mod 64) mod 64) 0 @ be64 (of_nat (8 * length m))"

fun be_words :: "byte list \<Rightarrow> 32 word list" where
  "be_words (a # b # c # d # bs) =
     (push_bit 24 (ucast a) OR push_bit 16 (ucast b) OR push_bit 8 (ucast c) OR ucast d)
       # be_words bs"
| "be_words _ = []"

fun schedule :: "nat \<Rightarrow> 32 word list \<Rightarrow> 32 word list" where
  "schedule 0 ws = ws"
| "schedule (Suc n) ws =
     (let t = length ws in
      schedule n
        (ws @ [sigma1 (ws ! (t - 2)) + ws ! (t - 7) + sigma0 (ws ! (t - 15)) + ws ! (t - 16)]))"

definition sha256_round :: "sha256_state \<Rightarrow> 32 word \<times> 32 word \<Rightarrow> sha256_state" where
  "sha256_round s kw =
     (let t1 = hh s + Sigma1 (he s) + Ch (he s) (hf s) (hg s) + fst kw + snd kw;
          t2 = Sigma0 (ha s) + Maj (ha s) (hb s) (hc s)
      in \<lparr>ha = t1 + t2, hb = ha s, hc = hb s, hd' = hc s,
          he = hd' s + t1, hf = he s, hg = hf s, hh = hg s\<rparr>)"

definition sha256_block :: "sha256_state \<Rightarrow> byte list \<Rightarrow> sha256_state" where
  "sha256_block s block =
     (let r = foldl sha256_round s (zip sha256_K (schedule 48 (be_words block)))
      in \<lparr>ha = ha s + ha r, hb = hb s + hb r, hc = hc s + hc r, hd' = hd' s + hd' r,
          he = he s + he r, hf = hf s + hf r, hg = hg s + hg r, hh = hh s + hh r\<rparr>)"

function sha256_blocks :: "sha256_state \<Rightarrow> byte list \<Rightarrow> sha256_state" where
  "sha256_blocks s bs =
     (if length bs < 64 then s else sha256_blocks (sha256_block s (take 64 bs)) (drop 64 bs))"
  by pat_completeness auto
termination
  by (relation "measure (\<lambda>(s, bs). length bs)") auto

definition sha256 :: "byte list \<Rightarrow> 32 word list" where
  "sha256 m =
     (let s = sha256_blocks sha256_H0 (sha256_pad m)
      in [ha s, hb s, hc s, hd' s, he s, hf s, hg s, hh s])"

definition hex_digit :: "nat \<Rightarrow> char" where
  "hex_digit n = ''0123456789abcdef'' ! (n mod 16)"

definition hex_word :: "32 word \<Rightarrow> string" where
  "hex_word w = map (\<lambda>i. hex_digit (unat (drop_bit (4 * (7 - i)) w))) [0..<8]"

definition sha256_hex :: "byte list \<Rightarrow> string" where
  "sha256_hex m = concat (map hex_word (sha256 m))"

section \<open>Output files\<close>

text \<open>
  \<open>OutputFile\<close> is the bundler's own record (package esbuild): a path, the bytes and a
  hash computed by the bundler. \<open>BuildOutputFileType\<close> is a numeric enum declared in
  bundler-context.ts; at run time a value outside its four members is possible, which is
  what the \<open>default\<close> branch of \<open>writeResultFiles\<close> is for.
\<close>

record OutputFile =
  path :: string
  contents :: Uint8Array
  hash :: string

datatype BuildOutputFileType = Browser | Media | Server | Root | Unlisted nat

text \<open>
  The three constructors of the source return object literals with stored fields and
  getters. A value of \<open>BuildOutputFile\<close> holds what each literal stores or captures:
  \<^item> \<open>createOutputFileFromText\<close>: \<open>path\<close>, \<open>text\<close>, \<open>type\<close>;
  \<^item> \<open>createOutputFileFromData\<close>: \<open>path\<close>, \<open>type\<close> and the captured view \<open>data\<close>;
  \<^item> \<open>convertOutputFile\<close>: \<open>contents\<close>, \<open>hash\<close>, \<open>path\<close>, \<open>type\<close>.
  The getters are functions of the object and of the store they are read in.
\<close>

datatype BuildOutputFile =
    TextFile string "16 word list" BuildOutputFileType
  | DataFile string Uint8Array BuildOutputFileType
  | ConvertedFile Uint8Array string string BuildOutputFileType

definition createOutputFileFromText ::
  "string \<Rightarrow> 16 word list \<Rightarrow> BuildOutputFileType \<Rightarrow> BuildOutputFile" where
  "createOutputFileFromText p text t = TextFile p text t"

definition createOutputFileFromData ::
  "string \<Rightarrow> Uint8Array \<Rightarrow> BuildOutputFileType \<Rightarrow> BuildOutputFile" where
  "createOutputFileFromData p data t = DataFile p data t"

definition convertOutputFile :: "OutputFile \<Rightarrow> BuildOutputFileType \<Rightarrow> BuildOutputFile" where
  "convertOutputFile file t = ConvertedFile (contents file) (hash file) (path file) t"

fun file_path :: "BuildOutputFile \<Rightarrow> string" where
  "file_path (TextFile p text t) = p"
| "file_path (DataFile p data t) = p"
| "file_path (ConvertedFile c hs p t) = p"

fun file_type :: "BuildOutputFile \<Rightarrow> BuildOutputFileType" where
  "file_type (TextFile p text t) = t"
| "file_type (DataFile p data t) = t"
| "file_type (ConvertedFile c hs p t) = t"

fun file_text :: "heap \<Rightarrow> BuildOutputFile \<Rightarrow> 16 word list" where
  "file_text h (TextFile p text t) = text"
| "file_text h (DataFile p data t) = utf8_decode (view_bytes h data)"
| "file_text h (ConvertedFile c hs p t) = utf8_decode (view_bytes h c)"

fun file_hash :: "heap \<Rightarrow> BuildOutputFile \<Rightarrow> string" where
  "file_hash h (TextFile p text t) = sha256_hex (utf8_encode (file_text h (TextFile p text t)))"
| "file_hash h (DataFile p data t) = sha256_hex (utf8_encode (file_text h (DataFile p data t)))"
| "file_hash h (ConvertedFile c hs p t) = hs"

text \<open>
  The bytes read through \<open>contents\<close>. For a text file the getter builds a new buffer
  from the string at every access; for the other two it returns the view the object holds.
\<close>

fun file_contents :: "heap \<Rightarrow> BuildOutputFile \<Rightarrow> byte list" where
  "file_contents h (TextFile p text t) = utf8_encode text"
| "file_contents h (DataFile p data t) = view_bytes h data"
| "file_contents h (ConvertedFile c hs p t) = view_bytes h c"

text \<open>
  \<open>clone()\<close> calls the constructor of the same variant again, on \<open>this.path\<close>,
  \<open>this.text\<close> or \<open>this.contents\<close>, \<open>this.type\<close>; \<open>convertOutputFile(this, this.type)\<close>
  reads \<open>path\<close>, \<open>contents\<close> and \<open>hash\<close> of \<open>this\<close>.
\<close>

fun clone :: "BuildOutputFile \<Rightarrow> BuildOutputFile" where
  "clone (TextFile p text t) = createOutputFileFromText p text t"
| "clone (DataFile p data t) = createOutputFileFromData p data t"
| "clone (ConvertedFile c hs p t) = convertOutputFile \<lparr>path = p, contents = c, hash = hs\<rparr> t"

section \<open>Transfer size estimate: \<open>calculateEstimatedTransferSizes\<close>\<close>

datatype error = UnhandledWrite string | SystemError nat

definition endsWith :: "string \<Rightarrow> string \<Rightarrow> bool" where
  "endsWith s searchString =
     (length searchString \<le> length s \<and> drop (length s - length searchString) s = searchString)"

text \<open>
  The function returns a promise built by hand. The \<open>for\<close> loop runs synchronously: it
  counts the files it skips, stores the length of the small ones and calls
  \<open>brotliCompress\<close> for the others. Each of these calls ends later, in an order the
  program does not determine (the parameter \<open>sched\<close>), by a callback that either rejects
  the promise or stores the compressed length and resolves the promise once every file is
  counted. A promise settles once: later calls of \<open>resolve\<close> or \<open>reject\<close> do nothing.
  The promise is resolved with the map object itself, so the caller sees its final content.

  \<open>brotliCompress\<close> (node:zlib) is a parameter: the compressed bytes or an error.
\<close>

record estimate_state =
  sizes :: "string \<rightharpoonup> nat"
  completeCount :: nat
  compressing :: "OutputFile list"
  settled :: "error option option"

definition resolve :: "estimate_state \<Rightarrow> estimate_state" where
  "resolve st = (if settled st = None then st\<lparr>settled := Some None\<rparr> else st)"

definition reject :: "error \<Rightarrow> estimate_state \<Rightarrow> estimate_state" where
  "reject e st = (if settled st = None then st\<lparr>settled := Some (Some e)\<rparr> else st)"

definition visit_file :: "estimate_state \<Rightarrow> OutputFile \<Rightarrow> estimate_state" where
  "visit_file st outputFile =
     (if \<not> endsWith (path outputFile) ''.js'' \<and> \<not> endsWith (path outputFile) ''.css'' then
        st\<lparr>completeCount := completeCount st + 1\<rparr>
      else if byteLength (contents outputFile) < 1024 then
        st\<lparr>sizes := (sizes st)(path outputFile \<mapsto> byteLength (contents outputFile)),
           completeCount := completeCount st + 1\<rparr>
      else st\<lparr>compressing := compressing st @ [outputFile]\<rparr>)"

definition compressed ::
  "(byte list \<Rightarrow> error + byte list) \<Rightarrow> heap \<Rightarrow> nat \<Rightarrow> estimate_state \<Rightarrow> OutputFile \<Rightarrow> estimate_state"
where
  "compressed brotliCompress h n st outputFile =
     (case brotliCompress (view_bytes h (contents outputFile)) of
        Inl e \<Rightarrow> reject e st
      | Inr result \<Rightarrow>
          (let st' = st\<lparr>sizes := (sizes st)(path outputFile \<mapsto> length result),
                        completeCount := completeCount st + 1\<rparr>
           in if completeCount st' \<ge> n then resolve st' else st'))"

text \<open>
  The result is \<open>None\<close> when the promise never settles, \<open>Some (Inl e)\<close> when it is
  rejected with \<open>e\<close> and \<open>Some (Inr m)\<close> when it is resolved with the map \<open>m\<close>.
\<close>

definition calculateEstimatedTransferSizes ::
  "(OutputFile list \<Rightarrow> OutputFile list) \<Rightarrow> (byte list \<Rightarrow> error + byte list) \<Rightarrow> heap
     \<Rightarrow> OutputFile list \<Rightarrow> (error + (string \<rightharpoonup> nat)) option"
where
  "calculateEstimatedTransferSizes sched brotliCompress h outputFiles =
     (if length outputFiles \<le> 0 then Some (Inr Map.empty)
      else
        (let st0 = \<lparr>sizes = Map.empty, completeCount = 0, compressing = [], settled = None\<rparr>;
             st1 = foldl visit_file st0 outputFiles;
             st2 = (if completeCount st1 \<ge> length outputFiles then resolve st1 else st1);
             st3 = foldl (compressed brotliCompress h (length outputFiles)) st2
                     (sched (compressing st1))
         in case settled st3 of
              None \<Rightarrow> None
            | Some None \<Rightarrow> Some (Inr (sizes st3))
            | Some (Some e) \<Rightarrow> Some (Inl e)))"

section \<open>Paths: \<open>path.join\<close> and \<open>path.dirname\<close>\<close>

text \<open>
  The POSIX variants of node:path. \<open>normalize_segments\<close> is the loop of node's
  \<open>normalizeString\<close> over the segments between slashes: an empty segment and \<open>.\<close> are
  dropped, \<open>..\<close> removes the segment before it unless there is none or it is \<open>..\<close>
  itself, in which case it is kept when the path is relative and dropped otherwise.
\<close>

fun split_slash :: "string \<Rightarrow> string list" where
  "split_slash [] = [[]]"
| "split_slash (c # cs) =
     (if c = CHR ''/'' then [] # split_slash cs
      else (case split_slash cs of [] \<Rightarrow> [[c]] | s # ss \<Rightarrow> (c # s) # ss))"

fun join_slash :: "string list \<Rightarrow> string" where
  "join_slash [] = []"
| "join_slash [s] = s"
| "join_slash (s # ss) = s @ ''/'' @ join_slash ss"

fun normalize_segments :: "bool \<Rightarrow> string list \<Rightarrow> string list \<Rightarrow> string list" where
  "normalize_segments allowAboveRoot res [] = res"
| "normalize_segments allowAboveRoot res (seg # segs) =
     normalize_segments allowAboveRoot
       (if seg = [] \<or> seg = ''.'' then res
        else if seg = ''..'' then
          (if res \<noteq> [] \<and> last res \<noteq> ''..'' then butlast res
           else if allowAboveRoot then res @ [''..'']
           else res)
        else res @ [seg])
       segs"

definition path_normalize :: "string \<Rightarrow> string" where
  "path_normalize p =
     (if p = [] then ''.''
      else
        (let isAbsolute = (hd p = CHR ''/'');
             trailingSeparator = (last p = CHR ''/'');
             res = join_slash (normalize_segments (\<not> isAbsolute) [] (split_slash p))
         in if res = [] then (if isAbsolute then ''/'' else if trailingSeparator then ''./'' else ''.'')
            else (if isAbsolute then ''/'' else []) @ res @ (if trailingSeparator then ''/'' else [])))"

definition path_join :: "string list \<Rightarrow> string" where
  "path_join args =
     (let joined = filter (\<lambda>arg. arg \<noteq> []) args
      in if joined = [] then ''.'' else path_normalize (join_slash joined))"

text \<open>
  \<open>dirname\<close> scans from the last character down to index 1 for the first slash that
  follows (from the right) a character other than a slash.
\<close>

fun dirname_end :: "string \<Rightarrow> nat \<Rightarrow> bool \<Rightarrow> nat option" where
  "dirname_end p 0 matchedSlash = None"
| "dirname_end p (Suc i) matchedSlash =
     (if p ! Suc i = CHR ''/'' then
        (if \<not> matchedSlash then Some (Suc i) else dirname_end p i matchedSlash)
      else dirname_end p i False)"

definition path_dirname :: "string \<Rightarrow> string" where
  "path_dirname p =
     (if p = [] then ''.''
      else
        (let hasRoot = (hd p = CHR ''/'') in
         case dirname_end p (length p - 1) True of
           None \<Rightarrow> (if hasRoot then ''/'' else ''.'')
         | Some e \<Rightarrow> (if hasRoot \<and> e = 1 then ''//'' else take e p)))"

section \<open>Chunked fan-out: \<open>emitFilesToDisk\<close>\<close>

text \<open>
  The source (esbuild/utils.ts, lines 264 to 280):
  \<^verbatim>\<open>
  const MAX_CONCURRENT_WRITES = 64;
  export async function emitFilesToDisk<T>(files: T[], writeFileCallback: (file: T) => Promise<void>) {
    for (let fileIndex = 0; fileIndex < files.length; ) {
      const groupMax = Math.min(fileIndex + MAX_CONCURRENT_WRITES, files.length);
      const actions = [];
      while (fileIndex < groupMax) {
        actions.push(writeFileCallback(files[fileIndex++]));
      }
      await Promise.all(actions);
    }
  }
  \<close>
  JavaScript runs one job at a time to completion. A call of the callback runs
  synchronously until it returns, and it can end in four ways:
  \<^item> the call throws (only a function that is not \<open>async\<close> can do this): the loop is left
    and the promise of \<open>emitFilesToDisk\<close> is rejected with the exception, while the tasks
    already launched go on;
  \<^item> it returns a promise that is already fulfilled (an \<open>async\<close> function that returned
    before any \<open>await\<close>);
  \<^item> it returns a promise that is already rejected (an \<open>async\<close> function that threw
    before any \<open>await\<close>: a \<open>throw\<close> inside an \<open>async\<close> function is a rejection, never
    an exception of the call);
  \<^item> it returns a pending promise (an \<open>async\<close> function suspended at an \<open>await\<close>); the
    rest of the body runs in later jobs.

  So the inner \<open>while\<close> loop launches the whole group before any suspended task can
  continue. A callback is modelled by two state transformers over a world \<open>'w\<close>:
  \<open>run_sync\<close>, the stretch up to the return of the call, and \<open>run_rest\<close>, which runs what
  a suspended task has left (a continuation \<open>'k\<close>) and ends with the outcome of its
  promise (\<open>None\<close>: fulfilled, \<open>Some e\<close>: rejected with \<open>e\<close>).

  \<open>Promise.all\<close> is fulfilled when every promise is fulfilled and is rejected by the
  first rejection that reaches it, without waiting for the other promises; these go on
  running and settle later. Nothing can take note of a promise before the job that
  launched the group has ended. The promises that were already settled when the callback
  returned reach \<open>Promise.all\<close> first, in the order of the array; the others reach it as
  they settle. Two things are not determined by the program and are parameters of the
  model:
  \<^item> \<open>sched\<close>, the order in which the suspended tasks of a group complete;
  \<^item> \<open>delay\<close>, the number of further tasks that settle between the moment
    \<open>Promise.all\<close> is rejected and the moment \<open>emitFilesToDisk\<close> is resumed and its
    \<open>await\<close> throws. Some jobs pass between the two, and a task whose continuation was
    already queued then settles before the failure is reported; a task that waits for an
    event of its own (the end of a file operation, a timer) settles after it.

  The observable behaviour is recorded as a trace of events.
\<close>

datatype 'e event =
    Launched nat              \<comment> \<open>\<open>writeFileCallback(files[i])\<close> returned a promise\<close>
  | Settled nat "'e option"   \<comment> \<open>the promise of task \<open>i\<close> is settled and can be taken note of\<close>
  | WaveDone                  \<comment> \<open>\<open>await Promise.all(actions)\<close> returned\<close>
  | Failed 'e                 \<comment> \<open>the operation rejects: the \<open>await\<close>, or a call of the callback, threw\<close>

datatype ('e, 'k) promise =
    Fulfilled
  | Rejected 'e
  | Pending 'k

record ('a, 'k, 'w, 'e) callback =
  run_sync :: "'a \<Rightarrow> 'w \<Rightarrow> ('e + ('e, 'k) promise) \<times> 'w"
  run_rest :: "'k \<Rightarrow> 'w \<Rightarrow> 'e option \<times> 'w"

definition MAX_CONCURRENT_WRITES :: nat where
  "MAX_CONCURRENT_WRITES = 64"

text \<open>
  The inner \<open>while\<close> loop. It is only called with \<open>groupMax \<le> length files\<close>, so
  \<open>files ! fileIndex\<close> is always in range. It returns the promises pushed on \<open>actions\<close>,
  each with the index of its file, and the exception that ended the loop, if any.
\<close>

function launch_group ::
  "('a, 'k, 'w, 'e) callback \<Rightarrow> 'a list \<Rightarrow> nat \<Rightarrow> nat \<Rightarrow> 'w
     \<Rightarrow> (nat \<times> ('e, 'k) promise) list \<times> 'e option \<times> 'w"
where
  "launch_group cb files fileIndex groupMax w =
     (if fileIndex < groupMax then
        (case run_sync cb (files ! fileIndex) w of
           (Inl e, w') \<Rightarrow> ([], Some e, w')
         | (Inr p, w') \<Rightarrow>
             (case launch_group cb files (Suc fileIndex) groupMax w' of
                (actions, thrown, w'') \<Rightarrow> ((fileIndex, p) # actions, thrown, w'')))
      else ([], None, w))"
  by pat_completeness auto
termination
  by (relation "measure (\<lambda>(cb, files, fileIndex, groupMax, w). groupMax - fileIndex)") auto

text \<open>
  The promises of a group that are settled when the loop ends, with their outcomes, and
  the tasks that are suspended, with what they have left to run.
\<close>

fun settled_now :: "(nat \<times> ('e, 'k) promise) list \<Rightarrow> (nat \<times> 'e option) list" where
  "settled_now [] = []"
| "settled_now ((i, Fulfilled) # actions) = (i, None) # settled_now actions"
| "settled_now ((i, Rejected e) # actions) = (i, Some e) # settled_now actions"
| "settled_now ((i, Pending k) # actions) = settled_now actions"

fun pending_of :: "(nat \<times> ('e, 'k) promise) list \<Rightarrow> (nat \<times> 'k) list" where
  "pending_of [] = []"
| "pending_of ((i, Fulfilled) # actions) = pending_of actions"
| "pending_of ((i, Rejected e) # actions) = pending_of actions"
| "pending_of ((i, Pending k) # actions) = (i, k) # pending_of actions"

text \<open>
  The suspended tasks of a group run to their end, in their order of completion, whether
  or not the operation has failed in the meantime.
\<close>

fun settle_group ::
  "('a, 'k, 'w, 'e) callback \<Rightarrow> (nat \<times> 'k) list \<Rightarrow> 'w \<Rightarrow> (nat \<times> 'e option) list \<times> 'w"
where
  "settle_group cb [] w = ([], w)"
| "settle_group cb ((i, k) # pending) w =
     (case run_rest cb k w of
        (r, w') \<Rightarrow>
          (case settle_group cb pending w' of
             (later, w'') \<Rightarrow> ((i, r) # later, w'')))"

text \<open>
  The first rejection in a sequence of settlements: the number of settlements before it
  and its error.
\<close>

fun first_rejection :: "(nat \<times> 'e option) list \<Rightarrow> (nat \<times> 'e) option" where
  "first_rejection [] = None"
| "first_rejection ((i, Some e) # rs) = Some (0, e)"
| "first_rejection ((i, None) # rs) =
     (case first_rejection rs of None \<Rightarrow> None | Some (n, e) \<Rightarrow> Some (Suc n, e))"

text \<open>
  Whether a group makes the operation fail, with which error, and how many of the tasks
  that were suspended have settled when it does. \<open>thrown\<close> is the exception of the launch,
  \<open>now\<close> are the settlements at the end of the launch, \<open>later\<close> those of the suspended
  tasks. An exception of the launch rejects the operation at once. Otherwise
  \<open>Promise.all\<close> is rejected by the first rejection among \<open>now\<close>, if there is one, else by
  the first among \<open>later\<close>, and the operation fails \<open>delay\<close> settlements after that.
\<close>

definition report ::
  "'e option \<Rightarrow> (nat \<times> 'e option) list \<Rightarrow> (nat \<times> 'e option) list \<Rightarrow> nat \<Rightarrow> (nat \<times> 'e) option"
where
  "report thrown now later delay =
     (case thrown of
        Some e \<Rightarrow> Some (0, e)
      | None \<Rightarrow>
          (case first_rejection now of
             Some (n, e) \<Rightarrow> Some (delay, e)
           | None \<Rightarrow>
               (case first_rejection later of
                  Some (n, e) \<Rightarrow> Some (Suc n + delay, e)
                | None \<Rightarrow> None)))"

definition settled_events :: "(nat \<times> 'e option) list \<Rightarrow> 'e event list" where
  "settled_events rs = map (\<lambda>(i, r). Settled i r) rs"

text \<open>
  The outer loop. The trace of a group holds its launches, then the settlements of the
  promises that were settled when their callback returned, then those of the suspended
  tasks in their order of completion; the failure, if there is one, stands after the
  settlements that precede it. After a group that fails no further group is launched; the
  suspended tasks of the group still run to their end, and the world returned is the one
  they leave.
\<close>

function emit_from ::
  "((nat \<times> 'k) list \<Rightarrow> (nat \<times> 'k) list) \<Rightarrow> nat \<Rightarrow> ('a, 'k, 'w, 'e) callback \<Rightarrow> 'a list \<Rightarrow> nat \<Rightarrow> 'w
     \<Rightarrow> 'e event list \<times> ('e + unit) \<times> 'w"
where
  "emit_from sched delay cb files fileIndex w =
     (if fileIndex < length files then
        (let groupMax = min (fileIndex + MAX_CONCURRENT_WRITES) (length files) in
         case launch_group cb files fileIndex groupMax w of
           (actions, thrown, w1) \<Rightarrow>
             (case settle_group cb (sched (pending_of actions)) w1 of
                (later, w2) \<Rightarrow>
                  (case report thrown (settled_now actions) later delay of
                     Some (n, e) \<Rightarrow>
                       (map (Launched \<circ> fst) actions @ settled_events (settled_now actions)
                          @ settled_events (take n later) @ Failed e
                          # settled_events (drop n later),
                        Inl e, w2)
                   | None \<Rightarrow>
                       (case emit_from sched delay cb files groupMax w2 of
                          (evs', res, w3) \<Rightarrow>
                            (map (Launched \<circ> fst) actions @ settled_events (settled_now actions)
                               @ settled_events later @ WaveDone # evs',
                             res, w3)))))
      else ([], Inr (), w))"
  by pat_completeness auto
termination
  by (relation "measure (\<lambda>(sched, delay, cb, files, fileIndex, w). length files - fileIndex)")
     (auto simp: MAX_CONCURRENT_WRITES_def)

definition emitFilesToDisk ::
  "((nat \<times> 'k) list \<Rightarrow> (nat \<times> 'k) list) \<Rightarrow> nat \<Rightarrow> 'a list \<Rightarrow> ('a, 'k, 'w, 'e) callback \<Rightarrow> 'w
     \<Rightarrow> 'e event list \<times> ('e + unit) \<times> 'w"
where
  "emitFilesToDisk sched delay files writeFileCallback w =
     emit_from sched delay writeFileCallback files 0 w"

section \<open>Writing the result: \<open>writeResultFiles\<close>\<close>

text \<open>
  The file system is reached through \<open>fs.mkdir\<close>, \<open>fs.writeFile\<close> and \<open>fs.copyFile\<close>.
  The calls made are logged in the order they are made; whether a call fails is a
  parameter of the model (\<open>None\<close>: the call succeeds). The options that are the same in
  every call (\<open>recursive: true\<close> of \<open>mkdir\<close>, the mode \<open>COPYFILE_FICLONE\<close> of
  \<open>copyFile\<close>) are not recorded.

  The type \<open>NormalizedOutputOptions\<close> is declared outside this file; its four fields are
  those the function destructures. \<open>BuildOutputAsset\<close> likewise has the two fields the
  callback destructures.
\<close>

record NormalizedOutputOptions =
  base :: string
  browser :: string
  media :: string
  server :: string

record BuildOutputAsset =
  source :: string
  destination :: string

datatype fs_call =
    Mkdir string
  | WriteFile string "byte list"
  | CopyFile string string

record file_system =
  mkdir :: "string \<Rightarrow> error option"
  writeFile :: "string \<Rightarrow> byte list \<Rightarrow> error option"
  copyFile :: "string \<Rightarrow> string \<Rightarrow> error option"

record write_state =
  directoryExists :: "string set"
  calls :: "fs_call list"

text \<open>
  \<open>ensureDirectoryExists\<close> tests the set and calls \<open>fs.mkdir\<close> in one synchronous
  stretch; it adds the directory to the set only after \<open>fs.mkdir\<close> has ended. Its first
  part returns the directory it is creating, if any.
\<close>

definition ensureDirectoryExists_sync ::
  "NormalizedOutputOptions \<Rightarrow> string \<Rightarrow> write_state \<Rightarrow> string option \<times> write_state" where
  "ensureDirectoryExists_sync opts destPath st =
     (let basePath = path_dirname destPath in
      if basePath \<notin> directoryExists st then
        (Some basePath, st\<lparr>calls := calls st @ [Mkdir (path_join [base opts, basePath])]\<rparr>)
      else (None, st))"

definition ensureDirectoryExists_rest ::
  "file_system \<Rightarrow> NormalizedOutputOptions \<Rightarrow> string option \<Rightarrow> write_state
     \<Rightarrow> error option \<times> write_state" where
  "ensureDirectoryExists_rest fs opts creating st =
     (case creating of
        None \<Rightarrow> (None, st)
      | Some basePath \<Rightarrow>
          (case mkdir fs (path_join [base opts, basePath]) of
             Some e \<Rightarrow> (Some e, st)
           | None \<Rightarrow> (None, st\<lparr>directoryExists := insert basePath (directoryExists st)\<rparr>)))"

text \<open>
  What a callback of \<open>writeResultFiles\<close> has left to do when it is suspended: it waits
  for \<open>ensureDirectoryExists\<close> (which is creating a directory, or has found it in the
  set) and will then make one call.
\<close>

datatype pending_write = Ensuring "string option" fs_call

definition perform :: "file_system \<Rightarrow> fs_call \<Rightarrow> error option" where
  "perform fs c =
     (case c of
        Mkdir d \<Rightarrow> mkdir fs d
      | WriteFile p bytes \<Rightarrow> writeFile fs p bytes
      | CopyFile src dst \<Rightarrow> copyFile fs src dst)"

definition finish_write ::
  "file_system \<Rightarrow> NormalizedOutputOptions \<Rightarrow> pending_write \<Rightarrow> write_state
     \<Rightarrow> error option \<times> write_state" where
  "finish_write fs opts k st =
     (case k of
        Ensuring creating c \<Rightarrow>
          (case ensureDirectoryExists_rest fs opts creating st of
             (Some e, st') \<Rightarrow> (Some e, st')
           | (None, st') \<Rightarrow> (perform fs c, st'\<lparr>calls := calls st' @ [c]\<rparr>)))"

definition outputDir_of :: "NormalizedOutputOptions \<Rightarrow> BuildOutputFileType \<Rightarrow> string option" where
  "outputDir_of opts t =
     (case t of
        Browser \<Rightarrow> Some (browser opts)
      | Media \<Rightarrow> Some (browser opts)
      | Server \<Rightarrow> Some (server opts)
      | Root \<Rightarrow> Some []
      | Unlisted n \<Rightarrow> None)"

text \<open>
  The two callbacks are \<open>async\<close> functions, so no call of them throws. The first one
  meets \<open>throw new Error(...)\<close> before any \<open>await\<close> for a file whose type is none of
  the four listed: its promise is then rejected when it returns. In every other case a
  callback is suspended at \<open>await ensureDirectoryExists(destPath)\<close>.
\<close>

definition write_output_file ::
  "file_system \<Rightarrow> heap \<Rightarrow> NormalizedOutputOptions
     \<Rightarrow> (BuildOutputFile, pending_write, write_state, error) callback" where
  "write_output_file fs h opts =
     \<lparr>run_sync = (\<lambda>file st.
        case outputDir_of opts (file_type file) of
          None \<Rightarrow> (Inr (Rejected (UnhandledWrite (file_path file))), st)
        | Some outputDir \<Rightarrow>
            (let destPath = path_join [outputDir, file_path file] in
             case ensureDirectoryExists_sync opts destPath st of
               (creating, st') \<Rightarrow>
                 (Inr (Pending (Ensuring creating
                    (WriteFile (path_join [base opts, destPath]) (file_contents h file)))), st'))),
      run_rest = finish_write fs opts\<rparr>"

definition copy_asset_file ::
  "file_system \<Rightarrow> NormalizedOutputOptions
     \<Rightarrow> (BuildOutputAsset, pending_write, write_state, error) callback" where
  "copy_asset_file fs opts =
     \<lparr>run_sync = (\<lambda>asset st.
        let destPath = path_join [browser opts, destination asset] in
        case ensureDirectoryExists_sync opts destPath st of
          (creating, st') \<Rightarrow>
            (Inr (Pending (Ensuring creating
               (CopyFile (source asset) (path_join [base opts, destPath])))), st')),
      run_rest = finish_write fs opts\<rparr>"

text \<open>
  \<open>assetFiles\<close> may be \<open>undefined\<close> (\<open>None\<close>); \<open>assetFiles?.length\<close> is then falsy, as
  it is for an empty array. A rejection of the first \<open>emitFilesToDisk\<close> ends the function.
\<close>

definition writeResultFiles ::
  "((nat \<times> pending_write) list \<Rightarrow> (nat \<times> pending_write) list) \<Rightarrow> nat \<Rightarrow> file_system \<Rightarrow> heap
     \<Rightarrow> BuildOutputFile list \<Rightarrow> BuildOutputAsset list option \<Rightarrow> NormalizedOutputOptions
     \<Rightarrow> error event list \<times> (error + unit) \<times> write_state" where
  "writeResultFiles sched delay fs h outputFiles assetFiles opts =
     (case emitFilesToDisk sched delay outputFiles (write_output_file fs h opts)
             \<lparr>directoryExists = {}, calls = []\<rparr> of
        (evs, Inl e, st) \<Rightarrow> (evs, Inl e, st)
      | (evs, Inr u, st) \<Rightarrow>
          (case assetFiles of
             None \<Rightarrow> (evs, Inr (), st)
           | Some assets \<Rightarrow>
               if length assets = 0 then (evs, Inr (), st)
               else
                 (case emitFilesToDisk sched delay assets (copy_asset_file fs opts) st of
                    (evs', res, st') \<Rightarrow> (evs @ evs', res, st'))))"

section \<open>Example inputs\<close>

text \<open>A store in which every buffer holds the single byte \<open>61\<close> (the letter a).\<close>

definition example_heap :: heap where
  "example_heap a = [0x61]"

definition example_view :: Uint8Array where
  "example_view = \<lparr>buffer = 0, byteOffset = 0, byteLength = 1\<rparr>"

text \<open>An output file of the bundler whose hash is not a SHA-256 digest.\<close>

definition bundler_file :: OutputFile where
  "bundler_file = \<lparr>path = ''main.js'', contents = example_view, hash = ''K7gNU3sd''\<rparr>"

text \<open>
  Inputs of the estimate: a script of 500 bytes, a script of 2000 bytes under the same
  path, and a source map. The store holds 2000 bytes in every buffer. \<open>toy_brotli\<close>
  stands for a compressor that always succeeds (it keeps ten bytes), \<open>failing_brotli\<close>
  for one that always fails.
\<close>

definition filler_heap :: heap where
  "filler_heap a = replicate 2000 0x61"

definition small_script :: OutputFile where
  "small_script =
     \<lparr>path = ''a.js'', contents = \<lparr>buffer = 0, byteOffset = 0, byteLength = 500\<rparr>, hash = []\<rparr>"

definition large_script :: OutputFile where
  "large_script =
     \<lparr>path = ''a.js'', contents = \<lparr>buffer = 1, byteOffset = 0, byteLength = 2000\<rparr>, hash = []\<rparr>"

definition source_map :: OutputFile where
  "source_map =
     \<lparr>path = ''a.js.map'', contents = \<lparr>buffer = 2, byteOffset = 0, byteLength = 40\<rparr>, hash = []\<rparr>"

definition toy_brotli :: "byte list \<Rightarrow> error + byte list" where
  "toy_brotli bs = Inr (take 10 bs)"

definition failing_brotli :: "byte list \<Rightarrow> error + byte list" where
  "failing_brotli bs = Inl (SystemError 5)"


text \<open>
  Inputs of \<open>writeResultFiles\<close>: a file system on which no call fails, a layout with
  three subdirectories and one whose browser directory is the base directory itself, two
  scripts of the browser kind, an image of the media kind and one asset to copy.
\<close>

definition never_fails :: file_system where
  "never_fails = \<lparr>mkdir = (\<lambda>d. None), writeFile = (\<lambda>p bytes. None), copyFile = (\<lambda>src dst. None)\<rparr>"

definition example_layout :: NormalizedOutputOptions where
  "example_layout = \<lparr>base = ''dist'', browser = ''browser'', media = ''media'', server = ''server''\<rparr>"

definition flat_layout :: NormalizedOutputOptions where
  "flat_layout = \<lparr>base = ''dist'', browser = [], media = ''media'', server = ''server''\<rparr>"

definition two_scripts :: "BuildOutputFile list" where
  "two_scripts =
     [createOutputFileFromText ''a.js'' [] Browser, createOutputFileFromText ''b.js'' [] Browser]"

definition media_file :: BuildOutputFile where
  "media_file = createOutputFileFromText ''logo.png'' [] Media"

definition one_asset :: "BuildOutputAsset list" where
  "one_asset = [\<lparr>source = ''/src/a.txt'', destination = ''a.txt''\<rparr>]"

section \<open>Notions used in the statements and proofs\<close>

text \<open>The estimate a caller reads for a path, when the promise was resolved with a map.\<close>

definition estimate_for :: "(error + (string \<rightharpoonup> nat)) option \<Rightarrow> string \<Rightarrow> nat option" where
  "estimate_for r p = (case r of Some (Inr m) \<Rightarrow> m p | _ \<Rightarrow> None)"

text \<open>The three tests of the estimate, named.\<close>

definition qualifies :: "OutputFile \<Rightarrow> bool" where
  "qualifies f = (endsWith (path f) ''.js'' \<or> endsWith (path f) ''.css'')"

definition small :: "OutputFile \<Rightarrow> bool" where
  "small f = (byteLength (contents f) < 1024)"

definition compresses :: "(byte list \<Rightarrow> error + byte list) \<Rightarrow> heap \<Rightarrow> OutputFile \<Rightarrow> bool" where
  "compresses brotliCompress h f = (\<exists>r. brotliCompress (view_bytes h (contents f)) = Inr r)"

abbreviation (input) estimate_start :: estimate_state where
  "estimate_start \<equiv> \<lparr>sizes = Map.empty, completeCount = 0, compressing = [], settled = None\<rparr>"


text \<open>A callback no call of which throws: every call returns a promise.\<close>

definition never_throws :: "('a, 'k, 'w, 'e) callback \<Rightarrow> bool" where
  "never_throws cb = (\<forall>x w. \<exists>p. fst (run_sync cb x w) = Inr p)"

text \<open>
  The tasks of a wave: the indices from \<open>i\<close> up to \<open>g\<close>, each with its item. The order
  in which the tasks of a wave settle under \<open>plain_action\<close>: first those settled when
  their callback returned, in the order of launch, then the others in their order of
  completion. \<open>settled_as out ps\<close> are the settlements of the tasks \<open>ps\<close>, in this
  order, each with the outcome \<open>out\<close> gives its item.
\<close>

definition items :: "'a list \<Rightarrow> nat \<Rightarrow> nat \<Rightarrow> (nat \<times> 'a) list" where
  "items files i g = map (\<lambda>j. (j, files ! j)) [i..<g]"



text \<open>
  Readings of a trace: the tasks in flight after it (launched and not yet settled), its
  waves (the maximal runs of launches, as lists of indices) and the tasks that had settled
  when the failure was reported. A task whose promise was settled when its callback
  returned counts as in flight until its group has been launched, which can only raise the
  count.
\<close>

fun is_launch :: "'e event \<Rightarrow> bool" where
  "is_launch (Launched i) = True"
| "is_launch _ = False"

fun is_settle :: "'e event \<Rightarrow> bool" where
  "is_settle (Settled i r) = True"
| "is_settle _ = False"

definition in_flight :: "'e event list \<Rightarrow> nat" where
  "in_flight evs = length (filter is_launch evs) - length (filter is_settle evs)"

fun waves :: "'e event list \<Rightarrow> nat list list" where
  "waves [] = []"
| "waves (Launched i # evs) =
     (case evs of
        Launched j # evs' \<Rightarrow> (case waves evs of [] \<Rightarrow> [[i]] | w # ws \<Rightarrow> (i # w) # ws)
      | _ \<Rightarrow> [i] # waves evs)"
| "waves (Settled i r # evs) = waves evs"
| "waves (WaveDone # evs) = waves evs"
| "waves (Failed e # evs) = waves evs"


text \<open>
  The chunks of the specification: the indices from \<open>i\<close> below \<open>n\<close>, cut into
  contiguous groups of \<open>MAX_CONCURRENT_WRITES\<close>, the last one possibly shorter.
\<close>

function chunks_from :: "nat \<Rightarrow> nat \<Rightarrow> nat list list" where
  "chunks_from i n =
     (if i < n then [i..<min (i + MAX_CONCURRENT_WRITES) n]
        # chunks_from (min (i + MAX_CONCURRENT_WRITES) n) n
      else [])"
  by pat_completeness auto
termination
  by (relation "measure (\<lambda>(i, n). n - i)") (auto simp: MAX_CONCURRENT_WRITES_def)

text \<open>
  A trace is balanced when no prefix of it has more than \<open>MAX_CONCURRENT_WRITES\<close>
  launches beyond its settlements and the whole trace has as many of the one as of the
  other.
\<close>

definition balanced :: "'e event list \<Rightarrow> bool" where
  "balanced evs =
     ((\<forall>n. length (filter is_launch (take n evs))
            \<le> length (filter is_settle (take n evs)) + MAX_CONCURRENT_WRITES)
      \<and> length (filter is_launch evs) = length (filter is_settle evs))"

text \<open>
  The two callbacks of \<open>writeResultFiles\<close> have one shape: a callback plans a
  destination path and one call (or throws), has \<open>ensureDirectoryExists\<close> see to the
  directory of the path, then makes the call. \<open>planned\<close> is that shape, \<open>output_plan\<close>
  and \<open>asset_plan\<close> are the plans of the two callbacks.
\<close>

definition planned ::
  "file_system \<Rightarrow> NormalizedOutputOptions \<Rightarrow> ('a \<Rightarrow> (string \<times> fs_call) option) \<Rightarrow> ('a \<Rightarrow> error)
     \<Rightarrow> ('a, pending_write, write_state, error) callback" where
  "planned fs opts plan err =
     \<lparr>run_sync = (\<lambda>x st.
        case plan x of
          None \<Rightarrow> (Inr (Rejected (err x)), st)
        | Some (destPath, c) \<Rightarrow>
            (case ensureDirectoryExists_sync opts destPath st of
               (creating, st') \<Rightarrow> (Inr (Pending (Ensuring creating c)), st'))),
      run_rest = finish_write fs opts\<rparr>"

definition output_plan ::
  "heap \<Rightarrow> NormalizedOutputOptions \<Rightarrow> BuildOutputFile \<Rightarrow> (string \<times> fs_call) option" where
  "output_plan h opts file =
     (case outputDir_of opts (file_type file) of
        None \<Rightarrow> None
      | Some outputDir \<Rightarrow>
          Some (path_join [outputDir, file_path file],
                WriteFile (path_join [base opts, path_join [outputDir, file_path file]])
                  (file_contents h file)))"

definition asset_plan :: "NormalizedOutputOptions \<Rightarrow> BuildOutputAsset \<Rightarrow> (string \<times> fs_call) option" where
  "asset_plan opts asset =
     Some (path_join [browser opts, destination asset],
           CopyFile (source asset) (path_join [base opts, path_join [browser opts, destination asset]]))"

text \<open>
  The promise a wave launched with the set of known directories \<open>D\<close> gets for an item,
  what the suspended tasks of the wave have left to do, and the \<open>mkdir\<close> calls the wave
  makes at once.
\<close>

fun is_mkdir :: "fs_call \<Rightarrow> bool" where
  "is_mkdir (Mkdir d) = True"
| "is_mkdir _ = False"

definition token_of ::
  "('a \<Rightarrow> (string \<times> fs_call) option) \<Rightarrow> ('a \<Rightarrow> error) \<Rightarrow> string set \<Rightarrow> 'a
     \<Rightarrow> (error, pending_write) promise" where
  "token_of plan err D x =
     (case plan x of
        None \<Rightarrow> Rejected (err x)
      | Some (destPath, c) \<Rightarrow>
          Pending (Ensuring
            (if path_dirname destPath \<notin> D then Some (path_dirname destPath) else None) c))"

definition tokens_of ::
  "('a \<Rightarrow> (string \<times> fs_call) option) \<Rightarrow> string set \<Rightarrow> 'a list \<Rightarrow> pending_write set" where
  "tokens_of plan D xs =
     (\<Union>x\<in>set xs. case plan x of
        None \<Rightarrow> {}
      | Some (destPath, c) \<Rightarrow>
          {Ensuring (if path_dirname destPath \<notin> D then Some (path_dirname destPath) else None) c})"

definition mkdirs_of ::
  "NormalizedOutputOptions \<Rightarrow> ('a \<Rightarrow> (string \<times> fs_call) option) \<Rightarrow> string set \<Rightarrow> 'a list \<Rightarrow> fs_call list"
where
  "mkdirs_of opts plan D xs =
     concat (map (\<lambda>x. case plan x of
                        None \<Rightarrow> []
                      | Some (destPath, c) \<Rightarrow>
                          if path_dirname destPath \<notin> D
                          then [Mkdir (path_join [base opts, path_dirname destPath])] else []) xs)"

definition pending_call :: "pending_write \<Rightarrow> fs_call list" where
  "pending_call k = (case k of Ensuring creating c \<Rightarrow> [c])"

definition pending_dir :: "pending_write \<Rightarrow> string set" where
  "pending_dir k = (case k of Ensuring creating c \<Rightarrow> set_option creating)"

text \<open>The directories and the calls planned for a list of items.\<close>

definition dirs_of :: "('a \<Rightarrow> (string \<times> fs_call) option) \<Rightarrow> 'a list \<Rightarrow> string set" where
  "dirs_of plan xs =
     (\<Union>x\<in>set xs. case plan x of None \<Rightarrow> {} | Some (destPath, c) \<Rightarrow> {path_dirname destPath})"

definition calls_of :: "('a \<Rightarrow> (string \<times> fs_call) option) \<Rightarrow> 'a list \<Rightarrow> fs_call set" where
  "calls_of plan xs = (\<Union>x\<in>set xs. case plan x of None \<Rightarrow> {} | Some (destPath, c) \<Rightarrow> {c})"

text \<open>
  The \<open>mkdir\<close> calls of a run that succeeds: wave after wave, one call for every item of
  the wave whose directory no earlier wave has recorded.
\<close>

function expected_mkdirs ::
  "NormalizedOutputOptions \<Rightarrow> ('a \<Rightarrow> (string \<times> fs_call) option) \<Rightarrow> string set \<Rightarrow> 'a list \<Rightarrow> fs_call list"
where
  "expected_mkdirs opts plan D xs =
     (if xs = [] then []
      else mkdirs_of opts plan D (take MAX_CONCURRENT_WRITES xs)
        @ expected_mkdirs opts plan (D \<union> dirs_of plan (take MAX_CONCURRENT_WRITES xs))
            (drop MAX_CONCURRENT_WRITES xs))"
  by pat_completeness auto
termination
  by (relation "measure (\<lambda>(opts, plan, D, xs). length xs)") (auto simp: MAX_CONCURRENT_WRITES_def)

text \<open>
  The asset list (empty when \<open>assetFiles\<close> is undefined), the directory of an output file
  of a listed type and of an asset, relative to the base directory, and the state
  \<open>writeResultFiles\<close> starts from.
\<close>

definition asset_list :: "BuildOutputAsset list option \<Rightarrow> BuildOutputAsset list" where
  "asset_list assetFiles = (case assetFiles of None \<Rightarrow> [] | Some assets \<Rightarrow> assets)"

definition output_dir :: "NormalizedOutputOptions \<Rightarrow> BuildOutputFile \<Rightarrow> string" where
  "output_dir opts file =
     path_dirname (path_join [the (outputDir_of opts (file_type file)), file_path file])"

definition asset_dir :: "NormalizedOutputOptions \<Rightarrow> BuildOutputAsset \<Rightarrow> string" where
  "asset_dir opts asset = path_dirname (path_join [browser opts, destination asset])"

abbreviation (input) write_start :: write_state where
  "write_start \<equiv> \<lparr>directoryExists = {}, calls = []\<rparr>"

section \<open>Properties of output files\<close>

lemma length_hex_word: "length (hex_word w) = 8"
  by (simp add: hex_word_def)

lemma length_sha256_hex: "length (sha256_hex m) = 64"
  by (simp add: sha256_hex_def sha256_def Let_def length_hex_word)

lemma unat_code_unit: "unat (ucast (b :: byte) :: 16 word) = unat b"
proof -
  have "unat b < 2 ^ 8" using unsigned_less [of b] by simp
  then have "unat b < 2 ^ 16" by simp
  then show ?thesis by (simp add: unsigned_ucast_eq take_bit_nat_eq_self)
qed

text \<open>Bytes below \<open>80\<close> decode to themselves and encode back to themselves.\<close>

lemma utf8_ascii_roundtrip:
  "\<forall>b\<in>set bs. unat b < 0x80 \<Longrightarrow> utf8_encode (utf8_decode_from 0 0 0x80 0xBF bs) = bs"
proof (induction bs)
  case Nil
  then show ?case by simp
next
  case (Cons b bs)
  then have b: "unat b < 0x80" and rest: "utf8_encode (utf8_decode_from 0 0 0x80 0xBF bs) = bs"
    by simp_all
  from b have "unat b \<le> 0x7F" by simp
  then have "utf8_decode_from 0 0 0x80 0xBF (b # bs)
      = of_nat (unat b) # utf8_decode_from 0 0 0x80 0xBF bs"
    by (simp add: Let_def)
  moreover have "utf8_bytes (unat b) = [b]"
    using b by (simp add: utf8_bytes_def)
  moreover have "utf8_encode (ucast b # us) = utf8_bytes (unat b) @ utf8_encode us" for us
    using b by (simp add: unat_code_unit)
  ultimately show ?case
    using rest by simp
qed

text \<open>
  C2, as amended. The hash of a file built by \<open>createOutputFileFromText\<close> is the
  hexadecimal SHA-256 digest of the UTF-8 bytes of its text, which are its contents. The
  hash of a file built by \<open>createOutputFileFromData\<close> is the digest of the UTF-8 bytes of
  its text, the text being its contents decoded as UTF-8; when the contents are pure ASCII
  this is the digest of the contents themselves. The hash of a file built by
  \<open>convertOutputFile\<close> is the hash field of the bundler's file, taken over as it is.
\<close>

theorem hash_by_variant:
  "file_hash h (createOutputFileFromText p text t)
     = sha256_hex (utf8_encode (file_text h (createOutputFileFromText p text t)))
   \<and> file_hash h (createOutputFileFromText p text t)
     = sha256_hex (file_contents h (createOutputFileFromText p text t))
   \<and> file_hash h (createOutputFileFromData p data t)
     = sha256_hex (utf8_encode (file_text h (createOutputFileFromData p data t)))
   \<and> file_text h (createOutputFileFromData p data t)
     = utf8_decode (file_contents h (createOutputFileFromData p data t))
   \<and> ((\<forall>b\<in>set (file_contents h (createOutputFileFromData p data t)). b < 0x80) \<longrightarrow>
        file_hash h (createOutputFileFromData p data t)
          = sha256_hex (file_contents h (createOutputFileFromData p data t)))
   \<and> file_hash h (convertOutputFile file t) = hash file"
  by (simp add: createOutputFileFromText_def createOutputFileFromData_def convertOutputFile_def
      utf8_decode_def utf8_ascii_roundtrip word_less_nat_alt)

text \<open>
  The amended C2 at a one-byte ASCII file built from data: its hash is the digest of the
  byte \<open>61\<close>.
\<close>

theorem hash_by_variant_witness:
  "file_contents example_heap (createOutputFileFromData ''main.js'' example_view Browser) = [0x61]
   \<and> file_hash example_heap (createOutputFileFromData ''main.js'' example_view Browser)
       = sha256_hex [0x61]"
  using hash_by_variant [of example_heap "''main.js''" "[]" Browser example_view]
  by (simp add: createOutputFileFromData_def view_bytes_def example_heap_def example_view_def)

text \<open>
  C2 as stated fails for \<open>convertOutputFile\<close>: the converted file keeps the bundler's
  hash, here a string of eight characters, which is no SHA-256 digest of anything.
\<close>

theorem converted_hash_counterexample:
  "file_hash example_heap (convertOutputFile bundler_file Browser)
     \<noteq> sha256_hex (utf8_encode (file_text example_heap (convertOutputFile bundler_file Browser)))"
proof
  assume "file_hash example_heap (convertOutputFile bundler_file Browser)
     = sha256_hex (utf8_encode (file_text example_heap (convertOutputFile bundler_file Browser)))"
  then have "length ''K7gNU3sd''
     = length (sha256_hex (utf8_encode (file_text example_heap
         (convertOutputFile bundler_file Browser))))"
    by (simp add: convertOutputFile_def bundler_file_def)
  then show False by (simp add: length_sha256_hex)
qed

text \<open>
  C3, as amended. A clone has the path and the type of the original and, read in the same
  store, its hash, text and contents. The contents of a clone of a text file do not depend
  on the store at all. A clone of a file built from data or converted from the bundler
  holds the view of the original: its contents are the bytes of that view in the current
  store, whatever has been written to the buffer since.
\<close>

theorem clone_same_view:
  "file_path (clone f) = file_path f \<and> file_type (clone f) = file_type f
   \<and> file_hash h (clone f) = file_hash h f \<and> file_text h (clone f) = file_text h f
   \<and> file_contents h (clone f) = file_contents h f
   \<and> file_contents h' (clone (createOutputFileFromText p text t))
       = file_contents h (createOutputFileFromText p text t)
   \<and> file_contents h' (clone (createOutputFileFromData p data t)) = view_bytes h' data
   \<and> file_contents h' (clone (convertOutputFile file t)) = view_bytes h' (contents file)"
  by (cases f)
     (simp_all add: createOutputFileFromText_def createOutputFileFromData_def convertOutputFile_def)

text \<open>
  C3 as stated fails for a file built from data: after a write to the buffer the original
  was built on, the contents of its clone have changed.
\<close>

theorem clone_aliasing_counterexample:
  "file_contents (poke example_heap 0 0 0x62)
       (clone (createOutputFileFromData ''main.js'' example_view Browser))
     \<noteq> file_contents example_heap
       (clone (createOutputFileFromData ''main.js'' example_view Browser))"
  by (simp add: createOutputFileFromData_def view_bytes_def example_heap_def example_view_def
      poke_def)

section \<open>Properties of the estimate\<close>

lemma visit_file_cases:
  "visit_file st f =
     (if \<not> qualifies f then st\<lparr>completeCount := completeCount st + 1\<rparr>
      else if small f then
        st\<lparr>sizes := (sizes st)(path f \<mapsto> byteLength (contents f)),
           completeCount := completeCount st + 1\<rparr>
      else st\<lparr>compressing := compressing st @ [f]\<rparr>)"
  by (simp add: visit_file_def qualifies_def small_def)

lemma visited_settled: "settled (foldl visit_file st fs) = settled st"
  by (induction fs arbitrary: st) (simp_all add: visit_file_cases)

lemma visited_compressing:
  "compressing (foldl visit_file st fs)
     = compressing st @ filter (\<lambda>f. qualifies f \<and> \<not> small f) fs"
  by (induction fs arbitrary: st) (simp_all add: visit_file_cases)

lemma visited_count:
  "completeCount (foldl visit_file st fs) + length (filter (\<lambda>f. qualifies f \<and> \<not> small f) fs)
     = completeCount st + length fs"
  by (induction fs arbitrary: st) (simp_all add: visit_file_cases)

lemma visited_dom:
  "dom (sizes (foldl visit_file st fs))
     = dom (sizes st) \<union> path ` {f \<in> set fs. qualifies f \<and> small f}"
  by (induction fs arbitrary: st) (auto simp: visit_file_cases)

lemma visited_other:
  "\<forall>g\<in>set fs. path g \<noteq> p \<Longrightarrow> sizes (foldl visit_file st fs) p = sizes st p"
  by (induction fs arbitrary: st) (auto simp: visit_file_cases)

lemma visited_same:
  "f \<in> set fs \<Longrightarrow> qualifies f \<Longrightarrow> small f \<Longrightarrow> \<forall>g\<in>set fs. path g = path f \<longrightarrow> g = f
     \<Longrightarrow> sizes (foldl visit_file st fs) (path f) = Some (byteLength (contents f))"
proof (induction fs rule: rev_induct)
  case Nil
  then show ?case by simp
next
  case (snoc x xs)
  show ?case
  proof (cases "x = f")
    case True
    with snoc.prems show ?thesis by (simp add: visit_file_cases)
  next
    case False
    with snoc.prems have "path x \<noteq> path f" and "f \<in> set xs" by auto
    with snoc show ?thesis by (simp add: visit_file_cases)
  qed
qed

text \<open>The callbacks of \<open>brotliCompress\<close>, folded in completion order.\<close>

lemma compressed_settled_keep:
  "settled st \<noteq> None \<Longrightarrow> settled (foldl (compressed bc h n) st cs) = settled st"
  by (induction cs arbitrary: st)
     (auto simp: compressed_def resolve_def reject_def Let_def split: sum.splits)

lemma compressed_other:
  "\<forall>g\<in>set cs. path g \<noteq> p \<Longrightarrow> sizes (foldl (compressed bc h n) st cs) p = sizes st p"
  by (induction cs arbitrary: st)
     (auto simp: compressed_def resolve_def reject_def Let_def split: sum.splits)

lemma compressed_pending:
  "\<forall>x\<in>set cs. compresses bc h x \<Longrightarrow> settled st = None \<Longrightarrow> completeCount st + length cs < n
     \<Longrightarrow> settled (foldl (compressed bc h n) st cs) = None
       \<and> completeCount (foldl (compressed bc h n) st cs) = completeCount st + length cs"
  by (induction cs arbitrary: st)
     (auto simp: compressed_def compresses_def resolve_def Let_def)

lemma sizes_resolve: "sizes (resolve st) = sizes st"
  by (simp add: resolve_def)

lemma compressed_sizes:
  "bc (view_bytes h (contents x)) = Inr r
     \<Longrightarrow> sizes (compressed bc h n st x) = (sizes st)(path x \<mapsto> length r)"
  by (simp add: compressed_def Let_def sizes_resolve)

lemma compressed_dom:
  "\<forall>x\<in>set cs. compresses bc h x
     \<Longrightarrow> dom (sizes (foldl (compressed bc h n) st cs)) = dom (sizes st) \<union> path ` set cs"
proof (induction cs arbitrary: st)
  case Nil
  then show ?case by simp
next
  case (Cons c cs)
  then obtain r where "bc (view_bytes h (contents c)) = Inr r"
    by (auto simp: compresses_def)
  then have "dom (sizes (compressed bc h n st c)) = insert (path c) (dom (sizes st))"
    by (simp add: compressed_sizes)
  with Cons show ?case by simp
qed

lemma compressed_step:
  "compresses bc h x \<Longrightarrow> settled st = None
     \<Longrightarrow> settled (compressed bc h n st x) = (if n \<le> completeCount st + 1 then Some None else None)"
  by (auto simp: compressed_def compresses_def resolve_def Let_def)

lemma compressed_resolved:
  "\<forall>x\<in>set cs. compresses bc h x \<Longrightarrow> settled st = None \<Longrightarrow> completeCount st + length cs = n
     \<Longrightarrow> cs \<noteq> [] \<Longrightarrow> settled (foldl (compressed bc h n) st cs) = Some None"
proof (induction cs rule: rev_induct)
  case Nil
  then show ?case by simp
next
  case (snoc x xs)
  then have "settled (foldl (compressed bc h n) st xs) = None"
    and "completeCount (foldl (compressed bc h n) st xs) = completeCount st + length xs"
    using compressed_pending [of xs bc h st n] by simp_all
  moreover from snoc.prems have "compresses bc h x" by simp
  ultimately have "settled (compressed bc h n (foldl (compressed bc h n) st xs) x)
      = (if n \<le> completeCount st + length xs + 1 then Some None else None)"
    using compressed_step [of bc h x "foldl (compressed bc h n) st xs" n] by simp
  with snoc.prems show ?case by simp
qed

lemma compressed_rejected:
  "\<forall>x\<in>set pre. compresses bc h x \<Longrightarrow> bc (view_bytes h (contents x)) = Inl e
     \<Longrightarrow> settled st = None \<Longrightarrow> completeCount st + length pre < n
     \<Longrightarrow> settled (foldl (compressed bc h n) st (pre @ x # post)) = Some (Some e)"
proof -
  assume a: "\<forall>x\<in>set pre. compresses bc h x" "bc (view_bytes h (contents x)) = Inl e"
    "settled st = None" "completeCount st + length pre < n"
  then have "settled (foldl (compressed bc h n) st pre) = None"
    using compressed_pending [of pre bc h st n] by simp
  with a have "settled (compressed bc h n (foldl (compressed bc h n) st pre) x) = Some (Some e)"
    by (simp add: compressed_def reject_def)
  then show ?thesis
    by (simp add: compressed_settled_keep)
qed

lemma first_failure:
  "\<not> (\<forall>x\<in>set cs. compresses bc h x)
     \<Longrightarrow> \<exists>pre x post e. cs = pre @ x # post \<and> (\<forall>y\<in>set pre. compresses bc h y)
           \<and> bc (view_bytes h (contents x)) = Inl e"
proof (induction cs)
  case Nil
  then show ?case by simp
next
  case (Cons c cs)
  show ?case
  proof (cases "compresses bc h c")
    case False
    then obtain e where "bc (view_bytes h (contents c)) = Inl e"
      by (cases "bc (view_bytes h (contents c))") (auto simp: compresses_def)
    then have "c # cs = [] @ c # cs \<and> (\<forall>y\<in>set []. compresses bc h y)
        \<and> bc (view_bytes h (contents c)) = Inl e" by simp
    then show ?thesis by blast
  next
    case True
    with Cons.prems have "\<not> (\<forall>x\<in>set cs. compresses bc h x)" by simp
    from Cons.IH [OF this] obtain pre x post e where
      "cs = pre @ x # post" "\<forall>y\<in>set pre. compresses bc h y" "bc (view_bytes h (contents x)) = Inl e"
      by blast
    with True have "c # cs = (c # pre) @ x # post \<and> (\<forall>y\<in>set (c # pre). compresses bc h y)
        \<and> bc (view_bytes h (contents x)) = Inl e" by simp
    then show ?thesis by blast
  qed
qed

lemma estimate_states:
  assumes "files \<noteq> []"
  shows "calculateEstimatedTransferSizes sched bc h files =
     (case settled (foldl (compressed bc h (length files))
              (if length files \<le> completeCount (foldl visit_file estimate_start files)
               then resolve (foldl visit_file estimate_start files)
               else foldl visit_file estimate_start files)
              (sched (compressing (foldl visit_file estimate_start files)))) of
        None \<Rightarrow> None
      | Some None \<Rightarrow> Some (Inr (sizes (foldl (compressed bc h (length files))
              (if length files \<le> completeCount (foldl visit_file estimate_start files)
               then resolve (foldl visit_file estimate_start files)
               else foldl visit_file estimate_start files)
              (sched (compressing (foldl visit_file estimate_start files))))))
      | Some (Some e) \<Rightarrow> Some (Inl e))"
  using assms by (simp add: calculateEstimatedTransferSizes_def Let_def)

lemma pending_files:
  "compressing (foldl visit_file estimate_start files) = filter (\<lambda>f. qualifies f \<and> \<not> small f) files"
  by (simp add: visited_compressing)

lemma pending_count:
  "completeCount (foldl visit_file estimate_start files)
     + length (filter (\<lambda>f. qualifies f \<and> \<not> small f) files) = length files"
  using visited_count [of estimate_start files] by (simp add:)

lemma estimate_resolved:
  assumes perm: "\<forall>xs. mset (sched xs) = mset xs"
    and ok: "\<forall>f\<in>set files. qualifies f \<and> \<not> small f \<longrightarrow> compresses bc h f"
  shows "\<exists>m. calculateEstimatedTransferSizes sched bc h files = Some (Inr m)
           \<and> dom m = path ` {f \<in> set files. qualifies f}
           \<and> (\<forall>f\<in>set files. qualifies f \<longrightarrow> small f \<longrightarrow> (\<forall>g\<in>set files. path g = path f \<longrightarrow> g = f)
                 \<longrightarrow> m (path f) = Some (byteLength (contents f)))"
proof (cases "files = []")
  case True
  then show ?thesis by (simp add: calculateEstimatedTransferSizes_def)
next
  case False
  let ?st1 = "foldl visit_file estimate_start files"
  let ?P = "filter (\<lambda>f. qualifies f \<and> \<not> small f) files"
  let ?st2 = "if length files \<le> completeCount ?st1 then resolve ?st1 else ?st1"
  let ?st3 = "foldl (compressed bc h (length files)) ?st2 (sched ?P)"
  have set_sched: "set (sched ?P) = set ?P" and len_sched: "length (sched ?P) = length ?P"
    using perm mset_eq_setD [of "sched ?P" ?P] mset_eq_length [of "sched ?P" ?P] by simp_all
  have all_ok: "\<forall>x\<in>set (sched ?P). compresses bc h x"
    using ok set_sched by simp
  have count: "completeCount ?st1 + length ?P = length files"
    by (rule pending_count)
  have sizes2: "sizes ?st2 = sizes ?st1" by (simp add: sizes_resolve)
  have settled3: "settled ?st3 = Some None"
  proof (cases "?P = []")
    case True
    with len_sched have "sched ?P = []" by simp
    moreover from True count have "length files \<le> completeCount ?st1" by simp
    ultimately show ?thesis
      by (simp add: resolve_def visited_settled)
  next
    case nonempty: False
    then have "0 < length ?P" by simp
    with count have "\<not> length files \<le> completeCount ?st1" by arith
    then have st2: "?st2 = ?st1" by simp
    have "settled ?st1 = None" by (simp add: visited_settled)
    moreover have "completeCount ?st1 + length (sched ?P) = length files"
      using count len_sched by simp
    moreover have "sched ?P \<noteq> []" using nonempty len_sched by (metis length_0_conv)
    ultimately have "settled (foldl (compressed bc h (length files)) ?st1 (sched ?P)) = Some None"
      using all_ok by (intro compressed_resolved) simp_all
    with st2 show ?thesis by simp
  qed
  have result: "calculateEstimatedTransferSizes sched bc h files = Some (Inr (sizes ?st3))"
    using settled3 by (simp add: estimate_states [OF False] pending_files)
  have "dom (sizes ?st3) = dom (sizes ?st2) \<union> path ` set (sched ?P)"
    using all_ok by (rule compressed_dom)
  also have "\<dots> = path ` {f \<in> set files. qualifies f \<and> small f} \<union> path ` set ?P"
    by (simp add: sizes2 set_sched visited_dom)
  also have "\<dots> = path ` {f \<in> set files. qualifies f}"
    by auto
  finally have dom3: "dom (sizes ?st3) = path ` {f \<in> set files. qualifies f}" .
  have small3: "sizes ?st3 (path f) = Some (byteLength (contents f))"
    if f: "f \<in> set files" "qualifies f" "small f" "\<forall>g\<in>set files. path g = path f \<longrightarrow> g = f" for f
  proof -
    have "\<forall>g\<in>set (sched ?P). path g \<noteq> path f"
      using f set_sched by auto
    then have "sizes ?st3 (path f) = sizes ?st2 (path f)"
      by (rule compressed_other)
    also have "\<dots> = sizes ?st1 (path f)" by (simp add: sizes2)
    also have "\<dots> = Some (byteLength (contents f))"
      using f by (rule visited_same)
    finally show ?thesis .
  qed
  show ?thesis
  proof (intro exI conjI ballI impI)
    show "calculateEstimatedTransferSizes sched bc h files = Some (Inr (sizes ?st3))"
      by (rule result)
    show "dom (sizes ?st3) = path ` {f \<in> set files. qualifies f}" by (rule dom3)
  next
    fix f
    assume "f \<in> set files" "qualifies f" "small f" "\<forall>g\<in>set files. path g = path f \<longrightarrow> g = f"
    then show "sizes ?st3 (path f) = Some (byteLength (contents f))" by (rule small3)
  qed
qed

lemma estimate_rejected:
  assumes perm: "\<forall>xs. mset (sched xs) = mset xs"
    and bad: "\<not> (\<forall>f\<in>set files. qualifies f \<and> \<not> small f \<longrightarrow> compresses bc h f)"
  shows "\<exists>e g. calculateEstimatedTransferSizes sched bc h files = Some (Inl e)
           \<and> g \<in> set files \<and> qualifies g \<and> \<not> small g \<and> bc (view_bytes h (contents g)) = Inl e"
proof -
  from bad have False: "files \<noteq> []" by auto
  let ?st1 = "foldl visit_file estimate_start files"
  let ?P = "filter (\<lambda>f. qualifies f \<and> \<not> small f) files"
  let ?st2 = "if length files \<le> completeCount ?st1 then resolve ?st1 else ?st1"
  let ?st3 = "foldl (compressed bc h (length files)) ?st2 (sched ?P)"
  have set_sched: "set (sched ?P) = set ?P" and len_sched: "length (sched ?P) = length ?P"
    using perm mset_eq_setD [of "sched ?P" ?P] mset_eq_length [of "sched ?P" ?P] by simp_all
  from bad have "\<not> (\<forall>x\<in>set (sched ?P). compresses bc h x)"
    using set_sched by auto
  from first_failure [OF this] obtain pre x post e where
    split: "sched ?P = pre @ x # post" and pre: "\<forall>y\<in>set pre. compresses bc h y"
    and x: "bc (view_bytes h (contents x)) = Inl e"
    by blast
  have count: "completeCount ?st1 + length ?P = length files"
    by (rule pending_count)
  from split have "length (sched ?P) = length pre + Suc (length post)" by simp
  with len_sched have "length pre < length ?P" by arith
  with count have short: "completeCount ?st1 + length pre < length files" by simp
  then have st2: "?st2 = ?st1" by simp
  have "settled ?st1 = None" by (simp add: visited_settled)
  with pre x short have "settled (foldl (compressed bc h (length files)) ?st1 (pre @ x # post))
      = Some (Some e)"
    by (intro compressed_rejected) simp_all
  with st2 split have "settled ?st3 = Some (Some e)" by simp
  then have "calculateEstimatedTransferSizes sched bc h files = Some (Inl e)"
    by (simp add: estimate_states [OF False] pending_files)
  moreover have "x \<in> set (sched ?P)" using split by simp
  then have "x \<in> set files \<and> qualifies x \<and> \<not> small x" using set_sched by simp
  ultimately show ?thesis using x by blast
qed

text \<open>
  C6. Whatever the order in which the compressions end, the promise settles; when it is
  resolved with a map, the keys of the map are exactly the paths of the input files that
  end in \<open>.js\<close> or \<open>.css\<close>; and it is resolved with a map whenever no compression
  fails.
\<close>

theorem estimate_keys:
  assumes "\<forall>xs. mset (sched xs) = mset xs"
  shows "calculateEstimatedTransferSizes sched bc h files \<noteq> None
    \<and> (\<forall>m. calculateEstimatedTransferSizes sched bc h files = Some (Inr m) \<longrightarrow>
          dom m = set (map path
            (filter (\<lambda>f. endsWith (path f) ''.js'' \<or> endsWith (path f) ''.css'') files)))
    \<and> ((\<forall>f\<in>set files. (endsWith (path f) ''.js'' \<or> endsWith (path f) ''.css'')
            \<and> \<not> byteLength (contents f) < 1024 \<longrightarrow>
            (\<exists>r. bc (view_bytes h (contents f)) = Inr r)) \<longrightarrow>
        (\<exists>m. calculateEstimatedTransferSizes sched bc h files = Some (Inr m)))"
proof (cases "\<forall>f\<in>set files. qualifies f \<and> \<not> small f \<longrightarrow> compresses bc h f")
  case True
  from estimate_resolved [OF assms True] obtain m where
    "calculateEstimatedTransferSizes sched bc h files = Some (Inr m)"
    "dom m = path ` {f \<in> set files. qualifies f}"
    by blast
  moreover have "path ` {f \<in> set files. qualifies f}
      = set (map path (filter (\<lambda>f. endsWith (path f) ''.js'' \<or> endsWith (path f) ''.css'') files))"
    by (auto simp: qualifies_def)
  ultimately show ?thesis by simp
next
  case False
  from estimate_rejected [OF assms False] obtain e where
    "calculateEstimatedTransferSizes sched bc h files = Some (Inl e)"
    by blast
  moreover from False have "\<not> (\<forall>f\<in>set files. (endsWith (path f) ''.js'' \<or> endsWith (path f) ''.css'')
            \<and> \<not> byteLength (contents f) < 1024 \<longrightarrow>
            (\<exists>r. bc (view_bytes h (contents f)) = Inr r))"
    by (simp add: qualifies_def small_def compresses_def)
  ultimately show ?thesis by simp
qed

text \<open>
  C6 at three files, completions in reverse order: the map has the single key \<open>a.js\<close>;
  the source map is no key.
\<close>

theorem estimate_keys_witness:
  "\<exists>m. calculateEstimatedTransferSizes rev toy_brotli filler_heap
          [small_script, source_map, large_script] = Some (Inr m)
       \<and> dom m = {''a.js''}"
proof -
  have "\<forall>xs :: OutputFile list. mset (rev xs) = mset xs" by simp
  from estimate_keys [OF this, of toy_brotli filler_heap "[small_script, source_map, large_script]"]
  show ?thesis
    by (auto simp: toy_brotli_def small_script_def source_map_def large_script_def endsWith_def)
qed

text \<open>
  C7, as amended. When the promise is resolved with a map, a file whose path ends in
  \<open>.js\<close> or \<open>.css\<close>, whose contents are shorter than 1024 bytes and whose path no other
  input file has, is estimated at exactly the length of its contents, and it is not among
  the files handed to \<open>brotliCompress\<close>.
\<close>

theorem small_file_estimate:
  assumes "\<forall>xs. mset (sched xs) = mset xs"
    and "calculateEstimatedTransferSizes sched bc h files = Some (Inr m)"
    and "f \<in> set files"
    and "endsWith (path f) ''.js'' \<or> endsWith (path f) ''.css''"
    and "byteLength (contents f) < 1024"
    and "\<forall>g\<in>set files. path g = path f \<longrightarrow> g = f"
  shows "m (path f) = Some (byteLength (contents f))
    \<and> f \<notin> set (compressing (foldl visit_file
          \<lparr>sizes = Map.empty, completeCount = 0, compressing = [], settled = None\<rparr> files))"
proof -
  have f: "qualifies f" "small f" using assms by (simp_all add: qualifies_def small_def)
  have "\<forall>f\<in>set files. qualifies f \<and> \<not> small f \<longrightarrow> compresses bc h f"
  proof (rule ccontr)
    assume "\<not> ?thesis"
    from estimate_rejected [OF assms(1) this] assms(2) show False by auto
  qed
  from estimate_resolved [OF assms(1) this] assms(2)
  have "\<forall>f\<in>set files. qualifies f \<longrightarrow> small f \<longrightarrow> (\<forall>g\<in>set files. path g = path f \<longrightarrow> g = f)
                 \<longrightarrow> m (path f) = Some (byteLength (contents f))"
    by auto
  with assms f have "m (path f) = Some (byteLength (contents f))" by blast
  moreover have "f \<notin> set (compressing (foldl visit_file estimate_start files))"
    using f by (simp add: pending_files)
  ultimately show ?thesis by simp
qed

text \<open>The estimate of a small script and a source map.\<close>

lemma estimate_example:
  "calculateEstimatedTransferSizes id toy_brotli filler_heap [small_script, source_map]
     = Some (Inr [''a.js'' \<mapsto> 500])"
  by (simp add: calculateEstimatedTransferSizes_def visit_file_def resolve_def
      small_script_def source_map_def endsWith_def)

text \<open>The amended C7 at the script of 500 bytes: its estimate is 500.\<close>

theorem small_file_estimate_witness:
  "estimate_for (calculateEstimatedTransferSizes id toy_brotli filler_heap
      [small_script, source_map]) ''a.js'' = Some 500"
proof -
  have perm: "\<forall>xs :: OutputFile list. mset (id xs) = mset xs" by simp
  have mem: "small_script \<in> set [small_script, source_map]" by simp
  have js: "endsWith (path small_script) ''.js'' \<or> endsWith (path small_script) ''.css''"
    by (simp add: small_script_def endsWith_def)
  have less: "byteLength (contents small_script) < 1024"
    by (simp add: small_script_def)
  have only: "\<forall>g\<in>set [small_script, source_map]. path g = path small_script \<longrightarrow> g = small_script"
    by (simp add: small_script_def source_map_def)
  from small_file_estimate [OF perm estimate_example mem js less only]
  have "[''a.js'' \<mapsto> 500] (path small_script) = Some (byteLength (contents small_script))"
    by simp
  then show ?thesis
    unfolding estimate_for_def estimate_example by simp
qed

text \<open>
  C7 as stated fails when two files have one path: the map has one entry per path, and the
  compressed length of the large file, stored later, replaces the length of the small one.
\<close>

theorem duplicate_path_counterexample:
  "estimate_for (calculateEstimatedTransferSizes id toy_brotli filler_heap
      [small_script, large_script]) (path small_script)
     \<noteq> Some (byteLength (contents small_script))"
  by (simp add: estimate_for_def calculateEstimatedTransferSizes_def visit_file_def resolve_def
      compressed_def toy_brotli_def filler_heap_def view_bytes_def
      small_script_def large_script_def endsWith_def)

text \<open>
  C8. If the compression of a file fails, the promise is rejected, with the error of a
  failed compression of one of the input files, whatever the order in which the
  compressions end: no map is returned.
\<close>

theorem compression_failure_rejects:
  assumes "\<forall>xs. mset (sched xs) = mset xs"
    and "f \<in> set files"
    and "endsWith (path f) ''.js'' \<or> endsWith (path f) ''.css''"
    and "\<not> byteLength (contents f) < 1024"
    and "bc (view_bytes h (contents f)) = Inl e0"
  shows "\<exists>e g. calculateEstimatedTransferSizes sched bc h files = Some (Inl e)
    \<and> g \<in> set files \<and> bc (view_bytes h (contents g)) = Inl e"
proof -
  have "\<not> compresses bc h f" using assms(5) by (simp add: compresses_def)
  with assms have "\<not> (\<forall>f\<in>set files. qualifies f \<and> \<not> small f \<longrightarrow> compresses bc h f)"
    by (auto simp: qualifies_def small_def)
  from estimate_rejected [OF assms(1) this] show ?thesis by blast
qed

text \<open>C8 at a compressor that fails: the estimate is rejected with its error.\<close>

theorem compression_failure_rejects_witness:
  "calculateEstimatedTransferSizes id failing_brotli filler_heap [small_script, large_script]
     = Some (Inl (SystemError 5))"
proof -
  have perm: "\<forall>xs :: OutputFile list. mset (id xs) = mset xs" by simp
  have mem: "large_script \<in> set [small_script, large_script]" by simp
  have js: "endsWith (path large_script) ''.js'' \<or> endsWith (path large_script) ''.css''"
    by (simp add: large_script_def endsWith_def)
  have large: "\<not> byteLength (contents large_script) < 1024"
    by (simp add: large_script_def)
  have fails: "failing_brotli (view_bytes filler_heap (contents large_script)) = Inl (SystemError 5)"
    by (simp add: failing_brotli_def)
  from compression_failure_rejects [where bc = failing_brotli and h = filler_heap,
      OF perm mem js large fails] obtain e g where
    "calculateEstimatedTransferSizes id failing_brotli filler_heap [small_script, large_script]
       = Some (Inl e)"
    and "failing_brotli (view_bytes filler_heap (contents (g :: OutputFile))) = Inl e"
    by blast
  then show ?thesis by (simp add: failing_brotli_def)
qed

section \<open>Properties of the chunked fan-out\<close>

declare launch_group.simps [simp del] emit_from.simps [simp del] chunks_from.simps [simp del]

lemma launch_group_prefix:
  "launch_group cb files i g w = (acts, thrown, w1)
     \<Longrightarrow> map fst acts = [i..<i + length acts] \<and> i + length acts \<le> max i g
       \<and> (thrown = None \<longrightarrow> i + length acts = max i g)"
proof (induction cb files i g w arbitrary: acts thrown w1 rule: launch_group.induct)
  case (1 cb files fileIndex groupMax w)
  show ?case
  proof (cases "fileIndex < groupMax")
    case False
    with "1.prems" show ?thesis by (subst (asm) launch_group.simps) simp
  next
    case True
    obtain r w' where s: "run_sync cb (files ! fileIndex) w = (r, w')"
      by (cases "run_sync cb (files ! fileIndex) w")
    show ?thesis
    proof (cases r)
      case (Inl e)
      with True s "1.prems" show ?thesis by (subst (asm) launch_group.simps) auto
    next
      case (Inr p)
      obtain acts' thrown' w'' where r:
        "launch_group cb files (Suc fileIndex) groupMax w' = (acts', thrown', w'')"
        by (cases "launch_group cb files (Suc fileIndex) groupMax w'")
      from "1.prems" True s Inr r
      have acts: "acts = (fileIndex, p) # acts'" and thrown: "thrown = thrown'"
        by (subst (asm) launch_group.simps, simp)+
      from "1.IH" [OF True s [symmetric] Inr r] s Inr
      have ih: "map fst acts' = [Suc fileIndex..<Suc fileIndex + length acts']"
        "Suc fileIndex + length acts' \<le> max (Suc fileIndex) groupMax"
        "thrown' = None \<longrightarrow> Suc fileIndex + length acts' = max (Suc fileIndex) groupMax"
        by simp_all
      have len: "fileIndex + length acts = Suc fileIndex + length acts'" using acts by simp
      have "map fst acts = fileIndex # map fst acts'" using acts by simp
      also have "\<dots> = fileIndex # [Suc fileIndex..<Suc fileIndex + length acts']"
        using ih(1) by simp
      also have "\<dots> = [fileIndex..<Suc fileIndex + length acts']"
        by (rule upt_conv_Cons [symmetric]) simp
      finally have m: "map fst acts = [fileIndex..<fileIndex + length acts]"
        unfolding len .
      from ih(2) ih(3) True thrown
      have "fileIndex + length acts \<le> max fileIndex groupMax
          \<and> (thrown = None \<longrightarrow> fileIndex + length acts = max fileIndex groupMax)"
        unfolding len by (auto simp: max_def split: if_splits)
      with m show ?thesis by simp
    qed
  qed
qed

lemma launch_group_indices:
  "launch_group cb files i g w = (acts, None, w1) \<Longrightarrow> i \<le> g \<Longrightarrow> map fst acts = [i..<g]"
  using launch_group_prefix [of cb files i g w acts None w1] by (simp add: max_def)

lemma launch_group_length:
  "launch_group cb files i g w = (acts, thrown, w1) \<Longrightarrow> length acts \<le> g - i"
  using launch_group_prefix [of cb files i g w acts thrown w1] by (auto simp: max_def split: if_splits)

lemma launch_group_returns:
  "never_throws cb \<Longrightarrow> launch_group cb files i g w = (acts, thrown, w1) \<Longrightarrow> thrown = None"
proof (induction cb files i g w arbitrary: acts thrown w1 rule: launch_group.induct)
  case (1 cb files fileIndex groupMax w)
  show ?case
  proof (cases "fileIndex < groupMax")
    case False
    with "1.prems" show ?thesis by (subst (asm) launch_group.simps) simp
  next
    case True
    obtain r w' where s: "run_sync cb (files ! fileIndex) w = (r, w')"
      by (cases "run_sync cb (files ! fileIndex) w")
    from "1.prems"(1) s obtain p where p: "r = Inr p"
      unfolding never_throws_def by (metis fst_conv)
    obtain acts' thrown' w'' where r:
      "launch_group cb files (Suc fileIndex) groupMax w' = (acts', thrown', w'')"
      by (cases "launch_group cb files (Suc fileIndex) groupMax w'")
    from "1.prems"(2) True s p r have "thrown = thrown'"
      by (subst (asm) launch_group.simps) simp
    with "1.IH" [OF True s [symmetric] p "1.prems"(1) r] show ?thesis by simp
  qed
qed

lemma settled_pending_length:
  "length (settled_now acts) + length (pending_of acts) = length acts"
  by (induction acts rule: settled_now.induct) simp_all

lemma settle_group_length:
  "length (fst (settle_group cb ps w)) = length ps"
  by (induction cb ps w rule: settle_group.induct) (auto split: prod.splits)

lemma settled_events_launch [simp]: "filter is_launch (settled_events rs) = []"
  by (induction rs) (auto simp: settled_events_def)

lemma settled_events_settle [simp]: "length (filter is_settle (settled_events rs)) = length rs"
  by (induction rs) (auto simp: settled_events_def)

lemma settled_events_append [simp]:
  "settled_events (a @ b) = settled_events a @ settled_events b"
  by (simp add: settled_events_def)

lemma no_launch_waves: "filter is_launch s = [] \<Longrightarrow> waves (s @ rest) = waves rest"
proof (induction s)
  case Nil
  then show ?case by simp
next
  case (Cons ev s)
  then show ?case by (cases ev) (simp_all split: if_splits)
qed

lemma no_launch_head:
  "filter is_launch s = [] \<Longrightarrow> rest = [] \<or> \<not> is_launch (hd rest)
     \<Longrightarrow> s @ rest = [] \<or> \<not> is_launch (hd (s @ rest))"
  by (cases s) (auto split: if_splits)

lemma waves_launched:
  "is \<noteq> [] \<Longrightarrow> rest = [] \<or> \<not> is_launch (hd rest)
     \<Longrightarrow> waves (map Launched is @ rest) = is # waves rest"
proof (induction "is")
  case Nil
  then show ?case by simp
next
  case (Cons i "is")
  show ?case
  proof (cases "is")
    case Nil
    with Cons.prems show ?thesis
      by (cases rest) (auto split: event.splits list.splits)
  next
    case (Cons j js)
    with Cons.IH Cons.prems have "waves (map Launched is @ rest) = is # waves rest" by simp
    with Cons show ?thesis by simp
  qed
qed

lemma wave_waves:
  assumes "is \<noteq> []" "filter is_launch s = []" "rest = [] \<or> \<not> is_launch (hd rest)"
  shows "waves (map Launched is @ s @ rest) = is # waves rest"
proof -
  have "s @ rest = [] \<or> \<not> is_launch (hd (s @ rest))"
    by (rule no_launch_head [OF assms(2) assms(3)])
  with assms(1) have "waves (map Launched is @ s @ rest) = is # waves (s @ rest)"
    by (rule waves_launched)
  with no_launch_waves [OF assms(2), of rest] show ?thesis by simp
qed

lemma balanced_append: "balanced a \<Longrightarrow> balanced b \<Longrightarrow> balanced (a @ b)"
  unfolding balanced_def
proof (intro conjI allI)
  fix n
  assume a: "(\<forall>n. length (filter is_launch (take n a)) \<le> length (filter is_settle (take n a)) + MAX_CONCURRENT_WRITES)
      \<and> length (filter is_launch a) = length (filter is_settle a)"
    and b: "(\<forall>n. length (filter is_launch (take n b)) \<le> length (filter is_settle (take n b)) + MAX_CONCURRENT_WRITES)
      \<and> length (filter is_launch b) = length (filter is_settle b)"
  show "length (filter is_launch (take n (a @ b)))
      \<le> length (filter is_settle (take n (a @ b))) + MAX_CONCURRENT_WRITES"
  proof (cases "n \<le> length a")
    case True
    with a show ?thesis by simp
  next
    case False
    then have "take n a = a" by simp
    moreover from b have "length (filter is_launch (take (n - length a) b))
      \<le> length (filter is_settle (take (n - length a) b)) + MAX_CONCURRENT_WRITES" by blast
    ultimately show ?thesis using a by simp
  qed
next
  assume "(\<forall>n. length (filter is_launch (take n a)) \<le> length (filter is_settle (take n a)) + MAX_CONCURRENT_WRITES)
      \<and> length (filter is_launch a) = length (filter is_settle a)"
    and "(\<forall>n. length (filter is_launch (take n b)) \<le> length (filter is_settle (take n b)) + MAX_CONCURRENT_WRITES)
      \<and> length (filter is_launch b) = length (filter is_settle b)"
  then show "length (filter is_launch (a @ b)) = length (filter is_settle (a @ b))" by simp
qed

lemma filter_launch_le: "length (filter is_launch (take n evs)) \<le> length (filter is_launch evs)"
proof -
  have "filter is_launch evs = filter is_launch (take n evs) @ filter is_launch (drop n evs)"
    by (metis append_take_drop_id filter_append)
  then show ?thesis by simp
qed

lemma balanced_wave:
  assumes "length is \<le> MAX_CONCURRENT_WRITES" "filter is_launch s = []"
    "length (filter is_settle s) = length is"
  shows "balanced (map Launched is @ s)"
proof -
  have all: "filter is_launch (map Launched is @ s) = map Launched is"
    using assms(2) by (induction "is") simp_all
  have none: "filter is_settle (map Launched is) = []"
    by (induction "is") simp_all
  have "length (filter is_launch (take n (map Launched is @ s))) \<le> MAX_CONCURRENT_WRITES" for n
    using filter_launch_le [of n "map Launched is @ s"] all assms(1) by simp
  then have "length (filter is_launch (take n (map Launched is @ s)))
      \<le> length (filter is_settle (take n (map Launched is @ s))) + MAX_CONCURRENT_WRITES" for n
    using trans_le_add2 by blast
  moreover have "length (filter is_launch (map Launched is @ s))
      = length (filter is_settle (map Launched is @ s))"
    using all none assms(3) by simp
  ultimately show ?thesis by (simp add: balanced_def)
qed

lemma balanced_barrier: "balanced [WaveDone]"
  by (simp add: balanced_def take_Cons')

lemma balanced_in_flight:
  assumes "balanced evs"
  shows "in_flight (take n evs) \<le> MAX_CONCURRENT_WRITES"
proof -
  from assms have "length (filter is_launch (take n evs))
      \<le> length (filter is_settle (take n evs)) + MAX_CONCURRENT_WRITES"
    by (simp add: balanced_def)
  then show ?thesis unfolding in_flight_def by arith
qed

lemma emit_done:
  "\<not> i < length files \<Longrightarrow> emit_from sched delay cb files i w = ([], Inr (), w)"
  by (subst emit_from.simps) simp

lemma emit_failed:
  "i < length files
     \<Longrightarrow> launch_group cb files i (min (i + MAX_CONCURRENT_WRITES) (length files)) w = (acts, thrown, w1)
     \<Longrightarrow> settle_group cb (sched (pending_of acts)) w1 = (later, w2)
     \<Longrightarrow> report thrown (settled_now acts) later delay = Some (n, e)
     \<Longrightarrow> emit_from sched delay cb files i w
           = (map (Launched \<circ> fst) acts @ settled_events (settled_now acts)
                @ settled_events (take n later) @ Failed e # settled_events (drop n later),
              Inl e, w2)"
  by (subst emit_from.simps) (simp add: Let_def)

lemma emit_continued:
  "i < length files
     \<Longrightarrow> launch_group cb files i (min (i + MAX_CONCURRENT_WRITES) (length files)) w = (acts, thrown, w1)
     \<Longrightarrow> settle_group cb (sched (pending_of acts)) w1 = (later, w2)
     \<Longrightarrow> report thrown (settled_now acts) later delay = None
     \<Longrightarrow> emit_from sched delay cb files (min (i + MAX_CONCURRENT_WRITES) (length files)) w2
           = (evs', res, w3)
     \<Longrightarrow> emit_from sched delay cb files i w
           = (map (Launched \<circ> fst) acts @ settled_events (settled_now acts)
                @ settled_events later @ WaveDone # evs',
              res, w3)"
  by (subst emit_from.simps) (simp add: Let_def)

lemma report_none:
  "report thrown now later delay = None
     \<longleftrightarrow> thrown = None \<and> first_rejection now = None \<and> first_rejection later = None"
  by (auto simp: report_def split: option.splits)

text \<open>The three ways a call of \<open>emit_from\<close> can go, as one case rule.\<close>

lemma emit_cases [consumes 0, case_names Done Failed Continued]:
  assumes "\<not> i < length files \<Longrightarrow> emit_from sched delay cb files i w = ([], Inr (), w) \<Longrightarrow> P"
    and "\<And>acts thrown w1 later w2 n e.
      i < length files
      \<Longrightarrow> launch_group cb files i (min (i + MAX_CONCURRENT_WRITES) (length files)) w = (acts, thrown, w1)
      \<Longrightarrow> settle_group cb (sched (pending_of acts)) w1 = (later, w2)
      \<Longrightarrow> report thrown (settled_now acts) later delay = Some (n, e)
      \<Longrightarrow> emit_from sched delay cb files i w
           = (map (Launched \<circ> fst) acts @ settled_events (settled_now acts)
                @ settled_events (take n later) @ Failed e # settled_events (drop n later),
              Inl e, w2)
      \<Longrightarrow> P"
    and "\<And>acts w1 later w2 evs' res w3.
      i < length files
      \<Longrightarrow> launch_group cb files i (min (i + MAX_CONCURRENT_WRITES) (length files)) w = (acts, None, w1)
      \<Longrightarrow> settle_group cb (sched (pending_of acts)) w1 = (later, w2)
      \<Longrightarrow> first_rejection (settled_now acts) = None \<and> first_rejection later = None
      \<Longrightarrow> emit_from sched delay cb files (min (i + MAX_CONCURRENT_WRITES) (length files)) w2
           = (evs', res, w3)
      \<Longrightarrow> emit_from sched delay cb files i w
           = (map (Launched \<circ> fst) acts @ settled_events (settled_now acts)
                @ settled_events later @ WaveDone # evs',
              res, w3)
      \<Longrightarrow> P"
  shows P
proof (cases "i < length files")
  case False
  show ?thesis by (rule assms(1) [OF False emit_done [OF False]])
next
  case True
  obtain acts thrown w1 where l:
    "launch_group cb files i (min (i + MAX_CONCURRENT_WRITES) (length files)) w = (acts, thrown, w1)"
    by (cases "launch_group cb files i (min (i + MAX_CONCURRENT_WRITES) (length files)) w")
  obtain later w2 where s: "settle_group cb (sched (pending_of acts)) w1 = (later, w2)"
    by (cases "settle_group cb (sched (pending_of acts)) w1")
  show ?thesis
  proof (cases "report thrown (settled_now acts) later delay")
    case (Some ne)
    obtain n e where ne: "ne = (n, e)" by (cases ne)
    with Some have r: "report thrown (settled_now acts) later delay = Some (n, e)" by simp
    show ?thesis
      by (rule assms(2) [OF True l s r emit_failed [where sched = sched, OF True l s r]])
  next
    case None
    then have t: "thrown = None"
      and f: "first_rejection (settled_now acts) = None \<and> first_rejection later = None"
      by (simp_all add: report_none)
    from l t have l': "launch_group cb files i (min (i + MAX_CONCURRENT_WRITES) (length files)) w
        = (acts, None, w1)" by simp
    obtain evs' res w3 where r:
      "emit_from sched delay cb files (min (i + MAX_CONCURRENT_WRITES) (length files)) w2
         = (evs', res, w3)"
      by (cases "emit_from sched delay cb files (min (i + MAX_CONCURRENT_WRITES) (length files)) w2")
    from None t have n': "report None (settled_now acts) later delay = None" by simp
    show ?thesis
      by (rule assms(3) [OF True l' s f r emit_continued [where sched = sched, OF True l' s n' r]])
  qed
qed

lemma wave_size:
  "launch_group cb files i (min (i + MAX_CONCURRENT_WRITES) n) w = (acts, thrown, w1)
     \<Longrightarrow> length acts \<le> MAX_CONCURRENT_WRITES"
  using launch_group_length [of cb files i "min (i + MAX_CONCURRENT_WRITES) n" w acts thrown w1]
  by simp

lemma wave_nonempty:
  assumes "i < n"
    and "launch_group cb files i (min (i + MAX_CONCURRENT_WRITES) n) w = (acts, None, w1)"
  shows "acts \<noteq> [] \<and> map fst acts = [i..<min (i + MAX_CONCURRENT_WRITES) n]"
proof -
  from assms(1) have le: "i \<le> min (i + MAX_CONCURRENT_WRITES) n" by simp
  from launch_group_indices [OF assms(2) le]
  have m: "map fst acts = [i..<min (i + MAX_CONCURRENT_WRITES) n]" .
  from assms(1) have "[i..<min (i + MAX_CONCURRENT_WRITES) n] \<noteq> []"
    by (simp add: MAX_CONCURRENT_WRITES_def)
  with m have "map fst acts \<noteq> []" by simp
  then have "acts \<noteq> []" by auto
  with m show ?thesis by simp
qed

text \<open>What follows the launches of a group in the trace holds no launch and one settlement for each task of the group.\<close>

lemma wave_tail:
  assumes perm: "\<forall>xs. mset (sched xs) = mset xs"
    and s: "settle_group cb (sched (pending_of acts)) w1 = (later, w2)"
  shows "length (filter is_settle (settled_events (settled_now acts) @ settled_events later))
      = length (map fst acts)"
    and "length (filter is_settle (settled_events (settled_now acts)
            @ settled_events (take n later) @ Failed e # settled_events (drop n later)))
      = length (map fst acts)"
proof -
  have "length (sched (pending_of acts)) = length (pending_of acts)"
    using perm mset_eq_length by blast
  with s settle_group_length [of cb "sched (pending_of acts)" w1]
  have l: "length later = length (pending_of acts)" by simp
  with settled_pending_length [of acts]
  show "length (filter is_settle (settled_events (settled_now acts) @ settled_events later))
      = length (map fst acts)" by simp
  have "length (take n later) + length (drop n later) = length later"
    by simp
  with l settled_pending_length [of acts]
  show "length (filter is_settle (settled_events (settled_now acts)
            @ settled_events (take n later) @ Failed e # settled_events (drop n later)))
      = length (map fst acts)"
    by (simp del: length_take length_drop)
qed

lemma emit_balanced:
  assumes perm: "\<forall>xs. mset (sched xs) = mset xs"
  shows "balanced (fst (emit_from sched delay cb files i w))"
proof (induction "length files - i" arbitrary: i w rule: less_induct)
  case less
  show ?case
  proof (cases rule: emit_cases [of i files sched delay cb w])
    case Done
    then show ?thesis by (simp add: balanced_def)
  next
    case (Failed acts thrown w1 later w2 n e)
    let ?s = "settled_events (settled_now acts)
            @ settled_events (take n later) @ Failed e # settled_events (drop n later)"
    have a3: "length (filter is_settle ?s) = length (map fst acts)"
      by (rule wave_tail(2) [OF perm Failed(3)])
    have a2: "filter is_launch ?s = []" by simp
    have a1: "length (map fst acts) \<le> MAX_CONCURRENT_WRITES"
      using wave_size [OF Failed(2)] by simp
    have "balanced (map Launched (map fst acts) @ ?s)"
      by (rule balanced_wave [OF a1 a2 a3])
    with Failed(5) show ?thesis by simp
  next
    case (Continued acts w1 later w2 evs' res w3)
    let ?s = "settled_events (settled_now acts) @ settled_events later"
    have a3: "length (filter is_settle ?s) = length (map fst acts)"
      by (rule wave_tail(1) [OF perm Continued(3)])
    have a2: "filter is_launch ?s = []" by simp
    have a1: "length (map fst acts) \<le> MAX_CONCURRENT_WRITES"
      using wave_size [OF Continued(2)] by simp
    have a: "balanced (map Launched (map fst acts) @ ?s)"
      by (rule balanced_wave [OF a1 a2 a3])
    have "length files - min (i + MAX_CONCURRENT_WRITES) (length files) < length files - i"
      using Continued(1) by (simp add: MAX_CONCURRENT_WRITES_def)
    from less [OF this, of w2] Continued(5) have b: "balanced evs'" by simp
    have "balanced ((map Launched (map fst acts) @ ?s) @ [WaveDone] @ evs')"
      by (rule balanced_append [OF a balanced_append [OF balanced_barrier b]])
    with Continued(6) show ?thesis by simp
  qed
qed

lemma emit_waves:
  "(never_throws cb \<longrightarrow>
      waves (fst (emit_from sched delay cb files i w))
        = take (length (waves (fst (emit_from sched delay cb files i w))))
            (chunks_from i (length files)))
   \<and> (fst (snd (emit_from sched delay cb files i w)) = Inr ()
        \<longrightarrow> waves (fst (emit_from sched delay cb files i w)) = chunks_from i (length files))"
proof (induction "length files - i" arbitrary: i w rule: less_induct)
  case less
  show ?case
  proof (cases rule: emit_cases [of i files sched delay cb w])
    case Done
    then show ?thesis by (simp add: chunks_from.simps)
  next
    case (Failed acts thrown w1 later w2 n e)
    let ?s = "settled_events (settled_now acts)
            @ settled_events (take n later) @ Failed e # settled_events (drop n later)"
    have "waves (fst (emit_from sched delay cb files i w))
        = take (length (waves (fst (emit_from sched delay cb files i w))))
            (chunks_from i (length files))" if nt: "never_throws cb"
    proof -
      from launch_group_returns [OF nt Failed(2)] Failed(2)
      have l: "launch_group cb files i (min (i + MAX_CONCURRENT_WRITES) (length files)) w
          = (acts, None, w1)" by simp
      from wave_nonempty [OF Failed(1) l] have "acts \<noteq> []"
        and ix: "map fst acts = [i..<min (i + MAX_CONCURRENT_WRITES) (length files)]"
        by simp_all
      from \<open>acts \<noteq> []\<close> have ne: "map fst acts \<noteq> []" by simp
      have nl: "filter is_launch ?s = []" by simp
      from wave_waves [OF ne nl, of "[]"] Failed(5)
      have "waves (fst (emit_from sched delay cb files i w)) = [map fst acts]"
        by simp
      moreover have "chunks_from i (length files)
          = map fst acts # chunks_from (min (i + MAX_CONCURRENT_WRITES) (length files)) (length files)"
        using Failed(1) ix by (subst chunks_from.simps) simp
      ultimately show ?thesis by simp
    qed
    with Failed(5) show ?thesis by simp
  next
    case (Continued acts w1 later w2 evs' res w3)
    let ?s = "settled_events (settled_now acts) @ settled_events later"
    from wave_nonempty [OF Continued(1) Continued(2)] have "acts \<noteq> []"
      and ix: "map fst acts = [i..<min (i + MAX_CONCURRENT_WRITES) (length files)]"
      by simp_all
    from \<open>acts \<noteq> []\<close> have ne: "map fst acts \<noteq> []" by simp
    have nl: "filter is_launch ?s = []" by simp
    from wave_waves [OF ne nl, of "WaveDone # evs'"] Continued(6)
    have w: "waves (fst (emit_from sched delay cb files i w)) = map fst acts # waves evs'"
      by simp
    have c: "chunks_from i (length files)
        = map fst acts # chunks_from (min (i + MAX_CONCURRENT_WRITES) (length files)) (length files)"
      using Continued(1) ix by (subst chunks_from.simps) simp
    have "length files - min (i + MAX_CONCURRENT_WRITES) (length files) < length files - i"
      using Continued(1) by (simp add: MAX_CONCURRENT_WRITES_def)
    from less [OF this, of w2] Continued(5)
    have "(never_throws cb \<longrightarrow> waves evs' = take (length (waves evs'))
            (chunks_from (min (i + MAX_CONCURRENT_WRITES) (length files)) (length files)))
        \<and> (res = Inr () \<longrightarrow> waves evs'
            = chunks_from (min (i + MAX_CONCURRENT_WRITES) (length files)) (length files))"
      by simp
    with w c Continued(6) show ?thesis by simp
  qed
qed




lemma first_rejection_Cons:
  "first_rejection ((i, r) # rs) = None \<longleftrightarrow> r = None \<and> first_rejection rs = None"
  by (cases r) (auto split: option.splits)


















lemma items_launched: "map Launched (map fst (items files i g)) = map Launched [i..<g]"
  by (simp add: items_def comp_def)























section \<open>Properties of \<open>writeResultFiles\<close>\<close>

declare expected_mkdirs.simps [simp del]

lemma write_output_file_planned:
  "write_output_file fs h opts = planned fs opts (output_plan h opts) (\<lambda>f. UnhandledWrite (file_path f))"
  by (simp add: write_output_file_def planned_def output_plan_def Let_def fun_eq_iff
      split: option.splits)

lemma copy_asset_file_planned:
  "copy_asset_file fs opts = planned fs opts (asset_plan opts) (\<lambda>a. undefined)"
  by (simp add: copy_asset_file_def planned_def asset_plan_def Let_def fun_eq_iff)

lemma planned_sync:
  "run_sync (planned fs opts plan err) x st
     = (Inr (token_of plan err (directoryExists st) x),
        st\<lparr>calls := calls st @ mkdirs_of opts plan (directoryExists st) [x]\<rparr>)"
  by (simp add: planned_def token_of_def mkdirs_of_def ensureDirectoryExists_sync_def Let_def
      split: option.splits)

lemma never_throws_planned: "never_throws (planned fs opts plan err)"
  by (simp add: never_throws_def planned_sync)

lemma mkdirs_of_append:
  "mkdirs_of opts plan D (xs @ ys) = mkdirs_of opts plan D xs @ mkdirs_of opts plan D ys"
  by (simp add: mkdirs_of_def)

lemma launch_planned:
  "launch_group (planned fs opts plan err) files i g st
     = (map (\<lambda>j. (j, token_of plan err (directoryExists st) (files ! j))) [i..<g], None,
        st\<lparr>calls := calls st @ mkdirs_of opts plan (directoryExists st) (map ((!) files) [i..<g])\<rparr>)"
proof (induction "g - i" arbitrary: i st)
  case 0
  then show ?case by (subst launch_group.simps) (simp add: mkdirs_of_def)
next
  case (Suc d)
  then have lt: "i < g" and d: "d = g - Suc i" by simp_all
  let ?D = "directoryExists st"
  let ?st1 = "st\<lparr>calls := calls st @ mkdirs_of opts plan ?D [files ! i]\<rparr>"
  have rest: "launch_group (planned fs opts plan err) files (Suc i) g ?st1
     = (map (\<lambda>j. (j, token_of plan err ?D (files ! j))) [Suc i..<g], None,
        ?st1\<lparr>calls := calls ?st1 @ mkdirs_of opts plan ?D (map ((!) files) [Suc i..<g])\<rparr>)"
    using Suc(1) [OF d, of ?st1] by simp
  have first: "run_sync (planned fs opts plan err) (files ! i) st
      = (Inr (token_of plan err ?D (files ! i)), ?st1)"
    by (rule planned_sync)
  have "launch_group (planned fs opts plan err) files i g st
     = ((i, token_of plan err ?D (files ! i)) # map (\<lambda>j. (j, token_of plan err ?D (files ! j))) [Suc i..<g],
        None,
        ?st1\<lparr>calls := calls ?st1 @ mkdirs_of opts plan ?D (map ((!) files) [Suc i..<g])\<rparr>)"
    using lt by (subst launch_group.simps) (simp only: first rest if_True prod.case sum.case)
  moreover have "[i..<g] = i # [Suc i..<g]" using lt by (rule upt_conv_Cons)
  moreover have "?st1\<lparr>calls := calls ?st1 @ mkdirs_of opts plan ?D (map ((!) files) [Suc i..<g])\<rparr>
      = st\<lparr>calls := calls st @ mkdirs_of opts plan ?D (files ! i # map ((!) files) [Suc i..<g])\<rparr>"
    by (simp add: mkdirs_of_def)
  ultimately show ?case by simp
qed

lemma finish_ok:
  assumes "finish_write fs opts k st = (None, st')"
  shows "st' = st\<lparr>directoryExists := directoryExists st \<union> pending_dir k,
               calls := calls st @ pending_call k\<rparr>"
proof (cases k)
  case (Ensuring creating c)
  with assms show ?thesis
    by (auto simp: finish_write_def ensureDirectoryExists_rest_def pending_dir_def pending_call_def
        split: option.splits prod.splits)
qed

lemma finish_any:
  assumes "finish_write fs opts k st = (r, st')"
  shows "set (calls st') \<subseteq> set (calls st) \<union> set (pending_call k)"
proof (cases k)
  case (Ensuring creating c)
  with assms show ?thesis
    by (auto simp: finish_write_def ensureDirectoryExists_rest_def pending_call_def
        split: option.splits prod.splits)
qed

lemma planned_rest: "run_rest (planned fs opts plan err) = finish_write fs opts"
  by (simp add: planned_def)

lemma settle_planned_ok:
  "settle_group (planned fs opts plan err) ps st = (later, st') \<Longrightarrow> first_rejection later = None
     \<Longrightarrow> directoryExists st' = directoryExists st \<union> \<Union> (pending_dir ` snd ` set ps)
       \<and> calls st' = calls st @ concat (map (pending_call \<circ> snd) ps)"
proof (induction ps arbitrary: st later)
  case Nil
  then show ?case by simp
next
  case (Cons p ps)
  obtain i k where p: "p = (i, k)" by (cases p)
  obtain r st1 where f: "finish_write fs opts k st = (r, st1)"
    by (cases "finish_write fs opts k st")
  obtain later1 st2 where s: "settle_group (planned fs opts plan err) ps st1 = (later1, st2)"
    by (cases "settle_group (planned fs opts plan err) ps st1")
  from Cons.prems(1) p f s have later: "later = (i, r) # later1" and st2: "st2 = st'"
    by (simp_all add: planned_rest)
  from Cons.prems(2) later have r: "r = None" and l1: "first_rejection later1 = None"
    by (simp_all add: first_rejection_Cons)
  from finish_ok [OF f [unfolded r]]
  have st1: "directoryExists st1 = directoryExists st \<union> pending_dir k"
      "calls st1 = calls st @ pending_call k"
    by simp_all
  from Cons.IH [OF s [unfolded st2] l1] st1 p show ?case by auto
qed

lemma settle_planned_any:
  "settle_group (planned fs opts plan err) ps st = (later, st')
     \<Longrightarrow> set (calls st') \<subseteq> set (calls st) \<union> \<Union> (set ` pending_call ` snd ` set ps)"
proof (induction ps arbitrary: st later st')
  case Nil
  then show ?case by simp
next
  case (Cons p ps)
  obtain i k where p: "p = (i, k)" by (cases p)
  obtain r1 st1 where f: "finish_write fs opts k st = (r1, st1)"
    by (cases "finish_write fs opts k st")
  obtain later1 st2 where s: "settle_group (planned fs opts plan err) ps st1 = (later1, st2)"
    by (cases "settle_group (planned fs opts plan err) ps st1")
  from Cons.prems p f s have "st2 = st'" by (simp add: planned_rest)
  with Cons.IH [OF s] finish_any [OF f] p show ?case by auto
qed

text \<open>The promises of a wave: which are rejected at once, and what the others have left.\<close>

lemma settled_now_tokens:
  "first_rejection (settled_now (map (\<lambda>j. (j, token_of plan err D (files ! j))) js)) = None
     \<Longrightarrow> \<forall>j\<in>set js. plan (files ! j) \<noteq> None"
  by (induction js) (auto simp: token_of_def split: option.splits)

lemma pending_of_tokens:
  "snd ` set (pending_of (map (\<lambda>j. (j, token_of plan err D (files ! j))) js))
     = tokens_of plan D (map ((!) files) js)"
  by (induction js) (auto simp: token_of_def tokens_of_def split: option.splits)

lemma slice_take_drop:
  assumes "i < length files"
  shows "map ((!) files) [i..<min (i + k) (length files)] = take k (drop i files)"
proof (rule nth_equalityI)
  show "length (map ((!) files) [i..<min (i + k) (length files)]) = length (take k (drop i files))"
    using assms by auto
next
  fix j
  assume "j < length (map ((!) files) [i..<min (i + k) (length files)])"
  then have j: "j < min (i + k) (length files) - i" by simp
  then have "i + j < min (i + k) (length files)" by arith
  then have "[i..<min (i + k) (length files)] ! j = i + j" by (rule nth_upt)
  with j show "map ((!) files) [i..<min (i + k) (length files)] ! j = take k (drop i files) ! j"
    using assms by simp
qed

lemma drop_min: "drop (min (i + k) (length files)) files = drop k (drop i files)"
  by (cases "i + k \<le> length files") (simp_all add: add.commute min_def)

lemma dirs_of_split: "dirs_of plan (take k xs) \<union> dirs_of plan (drop k xs) = dirs_of plan xs"
proof -
  have "set (take k xs) \<union> set (drop k xs) = set xs"
    by (metis append_take_drop_id set_append)
  then show ?thesis unfolding dirs_of_def by (metis UN_Un)
qed

lemma calls_of_split: "calls_of plan (take k xs) \<union> calls_of plan (drop k xs) = calls_of plan xs"
proof -
  have "set (take k xs) \<union> set (drop k xs) = set xs"
    by (metis append_take_drop_id set_append)
  then show ?thesis unfolding calls_of_def by (metis UN_Un)
qed

lemma token_dirs:
  "D \<union> (\<Union>k\<in>tokens_of plan D xs. pending_dir k) = D \<union> dirs_of plan xs"
  by (induction xs)
     (auto simp: tokens_of_def dirs_of_def pending_dir_def split: option.splits if_splits)

lemma token_calls:
  "(\<Union>k\<in>tokens_of plan D xs. set (pending_call k)) = calls_of plan xs"
  by (induction xs) (auto simp: tokens_of_def calls_of_def pending_call_def split: option.splits)

lemma calls_of_other:
  "\<forall>x destPath c. plan x = Some (destPath, c) \<longrightarrow> \<not> is_mkdir c
     \<Longrightarrow> c \<in> calls_of plan xs \<Longrightarrow> \<not> is_mkdir c"
  by (auto simp: calls_of_def split: option.splits)

lemma mkdirs_of_mkdir:
  "filter is_mkdir (mkdirs_of opts plan D xs) = mkdirs_of opts plan D xs"
  "filter (\<lambda>c. \<not> is_mkdir c) (mkdirs_of opts plan D xs) = []"
  by (induction xs) (auto simp: mkdirs_of_def split: option.splits)

text \<open>One wave that succeeds.\<close>

lemma wave_planned_ok:
  assumes perm: "\<forall>xs. mset (sched xs) = mset xs"
    and other: "\<forall>x destPath c. plan x = Some (destPath, c) \<longrightarrow> \<not> is_mkdir c"
    and l: "launch_group (planned fs opts plan err) files i g st = (acts, thrown, st1)"
    and s: "settle_group (planned fs opts plan err) (sched (pending_of acts)) st1 = (later, st2)"
    and ok: "first_rejection (settled_now acts) = None \<and> first_rejection later = None"
  shows "(\<forall>x\<in>set (map ((!) files) [i..<g]). plan x \<noteq> None)
    \<and> directoryExists st2 = directoryExists st \<union> dirs_of plan (map ((!) files) [i..<g])
    \<and> filter is_mkdir (calls st2)
        = filter is_mkdir (calls st) @ mkdirs_of opts plan (directoryExists st) (map ((!) files) [i..<g])
    \<and> set (filter (\<lambda>c. \<not> is_mkdir c) (calls st2))
        = set (filter (\<lambda>c. \<not> is_mkdir c) (calls st)) \<union> calls_of plan (map ((!) files) [i..<g])"
proof -
  let ?D = "directoryExists st"
  let ?xs = "map ((!) files) [i..<g]"
  let ?ps = "sched (pending_of acts)"
  from l launch_planned [of fs opts plan err files i g st]
  have acts: "acts = map (\<lambda>j. (j, token_of plan err ?D (files ! j))) [i..<g]"
    and st1: "st1 = st\<lparr>calls := calls st @ mkdirs_of opts plan ?D ?xs\<rparr>"
    by simp_all
  have set_sched: "set ?ps = set (pending_of acts)" using perm by (metis mset_eq_setD)
  have "snd ` set (pending_of acts) = tokens_of plan ?D ?xs"
    unfolding acts by (rule pending_of_tokens)
  then have tokens: "snd ` set ?ps = tokens_of plan ?D ?xs"
    by (simp only: set_sched)
  from ok have ok1: "first_rejection (settled_now acts) = None"
    and ok2: "first_rejection later = None" by simp_all
  from settle_planned_ok [OF s ok2]
  have dirs: "directoryExists st2 = directoryExists st1 \<union> \<Union> (pending_dir ` snd ` set ?ps)"
    and calls: "calls st2 = calls st1 @ concat (map (pending_call \<circ> snd) ?ps)"
    by simp_all
  from settled_now_tokens [OF ok1 [unfolded acts]]
  have planned: "\<forall>x\<in>set ?xs. plan x \<noteq> None" by simp
  have "directoryExists st2 = ?D \<union> (\<Union>k\<in>tokens_of plan ?D ?xs. pending_dir k)"
    using dirs st1 by (simp only: tokens) simp
  then have d: "directoryExists st2 = ?D \<union> dirs_of plan ?xs"
    by (simp only: token_dirs)
  have "set (concat (map (pending_call \<circ> snd) ?ps)) = (\<Union>k\<in>snd ` set ?ps. set (pending_call k))"
    by auto
  then have pc: "set (concat (map (pending_call \<circ> snd) ?ps)) = calls_of plan ?xs"
    by (simp only: tokens token_calls)
  have nomk: "\<forall>c\<in>set (concat (map (pending_call \<circ> snd) ?ps)). \<not> is_mkdir c"
    unfolding pc using calls_of_other [OF other] by blast
  have f1: "filter is_mkdir (concat (map (pending_call \<circ> snd) ?ps)) = []"
    using nomk by (simp add: filter_empty_conv)
  have f2: "filter (\<lambda>c. \<not> is_mkdir c) (concat (map (pending_call \<circ> snd) ?ps))
      = concat (map (pending_call \<circ> snd) ?ps)"
    using nomk by (simp add: filter_id_conv)
  have m: "filter is_mkdir (calls st2) = filter is_mkdir (calls st) @ mkdirs_of opts plan ?D ?xs"
    unfolding calls st1 using f1 by (simp add: mkdirs_of_mkdir)
  have "set (filter (\<lambda>c. \<not> is_mkdir c) (calls st2))
      = set (filter (\<lambda>c. \<not> is_mkdir c) (calls st))
        \<union> set (concat (map (pending_call \<circ> snd) ?ps))"
    unfolding calls st1 using f2 by (simp add: mkdirs_of_mkdir)
  then have o: "set (filter (\<lambda>c. \<not> is_mkdir c) (calls st2))
      = set (filter (\<lambda>c. \<not> is_mkdir c) (calls st)) \<union> calls_of plan ?xs"
    by (simp only: pc)
  show ?thesis
    by (intro conjI planned d m o)
qed

lemma emit_planned_ok:
  assumes perm: "\<forall>xs. mset (sched xs) = mset xs"
    and other: "\<forall>x destPath c. plan x = Some (destPath, c) \<longrightarrow> \<not> is_mkdir c"
  shows "emit_from sched delay (planned fs opts plan err) files i st = (evs, Inr (), st')
     \<Longrightarrow> (\<forall>x\<in>set (drop i files). plan x \<noteq> None)
       \<and> directoryExists st' = directoryExists st \<union> dirs_of plan (drop i files)
       \<and> filter is_mkdir (calls st')
           = filter is_mkdir (calls st) @ expected_mkdirs opts plan (directoryExists st) (drop i files)
       \<and> set (filter (\<lambda>c. \<not> is_mkdir c) (calls st'))
           = set (filter (\<lambda>c. \<not> is_mkdir c) (calls st)) \<union> calls_of plan (drop i files)"
proof (induction "length files - i" arbitrary: i st evs rule: less_induct)
  case less
  let ?cb = "planned fs opts plan err"
  let ?g = "min (i + MAX_CONCURRENT_WRITES) (length files)"
  show ?case
  proof (cases rule: emit_cases [of i files sched delay ?cb st])
    case Done
    then have "drop i files = []" by simp
    moreover from Done less.prems have "st' = st" by simp
    ultimately show ?thesis
      by (simp add: dirs_of_def calls_of_def expected_mkdirs.simps)
  next
    case (Failed acts thrown w1 later w2 n e)
    with less.prems show ?thesis by simp
  next
    case (Continued acts st1 later st2 evs2 res st3)
    with less.prems have res: "res = Inr ()" and st3: "st3 = st'" by simp_all
    let ?xs = "take MAX_CONCURRENT_WRITES (drop i files)"
    let ?ys = "drop MAX_CONCURRENT_WRITES (drop i files)"
    have slice: "map ((!) files) [i..<?g] = ?xs"
      using Continued(1) by (rule slice_take_drop)
    have rest: "drop ?g files = ?ys" by (rule drop_min)
    have ne: "drop i files \<noteq> []" using Continued(1) by simp
    from wave_planned_ok [OF perm other Continued(2) Continued(3) Continued(4)]
    have w: "\<forall>x\<in>set ?xs. plan x \<noteq> None"
      "directoryExists st2 = directoryExists st \<union> dirs_of plan ?xs"
      "filter is_mkdir (calls st2)
        = filter is_mkdir (calls st) @ mkdirs_of opts plan (directoryExists st) ?xs"
      "set (filter (\<lambda>c. \<not> is_mkdir c) (calls st2))
        = set (filter (\<lambda>c. \<not> is_mkdir c) (calls st)) \<union> calls_of plan ?xs"
      unfolding slice by simp_all
    have "length files - ?g < length files - i"
      using Continued(1) by (simp add: MAX_CONCURRENT_WRITES_def)
    from less.hyps [OF this, of st2 evs2] Continued(5) res st3
    have r: "\<forall>x\<in>set ?ys. plan x \<noteq> None"
      "directoryExists st' = directoryExists st2 \<union> dirs_of plan ?ys"
      "filter is_mkdir (calls st')
        = filter is_mkdir (calls st2) @ expected_mkdirs opts plan (directoryExists st2) ?ys"
      "set (filter (\<lambda>c. \<not> is_mkdir c) (calls st'))
        = set (filter (\<lambda>c. \<not> is_mkdir c) (calls st2)) \<union> calls_of plan ?ys"
      unfolding rest by simp_all
    have all: "set (drop i files) = set ?xs \<union> set ?ys"
      by (metis append_take_drop_id set_append)
    have c1: "\<forall>x\<in>set (drop i files). plan x \<noteq> None"
      using w(1) r(1) all by blast
    have c2: "directoryExists st' = directoryExists st \<union> dirs_of plan (drop i files)"
      using w(2) r(2) dirs_of_split [of plan MAX_CONCURRENT_WRITES "drop i files"] by blast
    have "expected_mkdirs opts plan (directoryExists st) (drop i files)
        = mkdirs_of opts plan (directoryExists st) ?xs
          @ expected_mkdirs opts plan (directoryExists st \<union> dirs_of plan ?xs) ?ys"
      using ne by (subst expected_mkdirs.simps) simp
    then have c3: "filter is_mkdir (calls st')
        = filter is_mkdir (calls st) @ expected_mkdirs opts plan (directoryExists st) (drop i files)"
      using w(2) w(3) r(3) by simp
    have c4: "set (filter (\<lambda>c. \<not> is_mkdir c) (calls st'))
        = set (filter (\<lambda>c. \<not> is_mkdir c) (calls st)) \<union> calls_of plan (drop i files)"
      using w(4) r(4) calls_of_split [of plan MAX_CONCURRENT_WRITES "drop i files"] by blast
    show ?thesis by (intro conjI c1 c2 c3 c4)
  qed
qed

text \<open>What any run, failed or not, may have called.\<close>

lemma emit_planned_any:
  assumes perm: "\<forall>xs. mset (sched xs) = mset xs"
  shows "emit_from sched delay (planned fs opts plan err) files i st = (evs, res, st')
     \<Longrightarrow> set (filter (\<lambda>c. \<not> is_mkdir c) (calls st'))
           \<subseteq> set (filter (\<lambda>c. \<not> is_mkdir c) (calls st)) \<union> calls_of plan files"
proof (induction "length files - i" arbitrary: i st evs res rule: less_induct)
  case less
  let ?cb = "planned fs opts plan err"
  let ?g = "min (i + MAX_CONCURRENT_WRITES) (length files)"
  have wave: "set (filter (\<lambda>c. \<not> is_mkdir c) (calls st2))
           \<subseteq> set (filter (\<lambda>c. \<not> is_mkdir c) (calls st)) \<union> calls_of plan files"
    if l: "launch_group ?cb files i ?g st = (acts, thrown, st1)"
      and s: "settle_group ?cb (sched (pending_of acts)) st1 = (later, st2)"
      and i: "i < length files"
    for acts thrown st1 later st2
  proof -
    let ?D = "directoryExists st"
    let ?xs = "take MAX_CONCURRENT_WRITES (drop i files)"
    have slice: "map ((!) files) [i..<?g] = ?xs" using i by (rule slice_take_drop)
    from l launch_planned [of fs opts plan err files i ?g st]
    have acts: "acts = map (\<lambda>j. (j, token_of plan err ?D (files ! j))) [i..<?g]"
      and st1: "st1 = st\<lparr>calls := calls st @ mkdirs_of opts plan ?D ?xs\<rparr>"
      by (simp_all add: slice)
    have set_sched: "set (sched (pending_of acts)) = set (pending_of acts)"
      using perm by (metis mset_eq_setD)
    have "snd ` set (pending_of acts) = tokens_of plan ?D (map ((!) files) [i..<?g])"
      unfolding acts by (rule pending_of_tokens)
    then have tokens: "snd ` set (sched (pending_of acts)) = tokens_of plan ?D ?xs"
      by (simp only: set_sched slice)
    from settle_planned_any [OF s]
    have "set (calls st2)
        \<subseteq> set (calls st1) \<union> (\<Union>k\<in>snd ` set (sched (pending_of acts)). set (pending_call k))"
      by simp
    also have "(\<Union>k\<in>snd ` set (sched (pending_of acts)). set (pending_call k)) = calls_of plan ?xs"
      unfolding tokens by (rule token_calls)
    finally have sub: "set (calls st2) \<subseteq> set (calls st1) \<union> calls_of plan ?xs" .
    have "calls_of plan ?xs \<subseteq> calls_of plan files"
      unfolding calls_of_def by (meson UN_mono in_set_dropD in_set_takeD subsetI)
    with sub have "set (calls st2) \<subseteq> set (calls st1) \<union> calls_of plan files" by blast
    moreover have "set (filter (\<lambda>c. \<not> is_mkdir c) (calls st1)) = set (filter (\<lambda>c. \<not> is_mkdir c) (calls st))"
      unfolding st1 by (simp add: mkdirs_of_mkdir)
    ultimately show ?thesis by auto
  qed
  show ?case
  proof (cases rule: emit_cases [of i files sched delay ?cb st])
    case Done
    with less.prems show ?thesis by auto
  next
    case (Failed acts thrown st1 later st2 n e)
    with less.prems have "st2 = st'" by simp
    with wave [OF Failed(2) Failed(3) Failed(1)] show ?thesis by simp
  next
    case (Continued acts st1 later st2 evs2 res2 st3)
    with less.prems have st3: "st3 = st'" by simp
    have "length files - ?g < length files - i"
      using Continued(1) by (simp add: MAX_CONCURRENT_WRITES_def)
    moreover from Continued(5) st3
    have "emit_from sched delay ?cb files ?g st2 = (evs2, res2, st')" by simp
    ultimately
    have "set (filter (\<lambda>c. \<not> is_mkdir c) (calls st'))
           \<subseteq> set (filter (\<lambda>c. \<not> is_mkdir c) (calls st2)) \<union> calls_of plan files"
      by (rule less.hyps)
    with wave [OF Continued(2) Continued(3) Continued(1)] show ?thesis by blast
  qed
qed

lemma mkdirs_of_set:
  "set (mkdirs_of opts plan D xs)
     = (\<lambda>d. Mkdir (path_join [base opts, d])) ` (dirs_of plan xs - D)"
  by (induction xs) (auto simp: mkdirs_of_def dirs_of_def split: option.splits if_splits)

lemma mkdirs_of_length: "length (mkdirs_of opts plan D xs) \<le> length xs"
  by (induction xs) (auto simp: mkdirs_of_def split: option.splits)

lemma mkdirs_of_empty_cache:
  "\<forall>x\<in>set xs. plan x \<noteq> None
     \<Longrightarrow> mkdirs_of opts plan {} xs
       = map (\<lambda>x. Mkdir (path_join [base opts, path_dirname (fst (the (plan x)))])) xs"
  by (induction xs) (auto simp: mkdirs_of_def)

lemma expected_set:
  "set (expected_mkdirs opts plan D xs)
     = (\<lambda>d. Mkdir (path_join [base opts, d])) ` (dirs_of plan xs - D)"
proof (induction "length xs" arbitrary: xs D rule: less_induct)
  case less
  show ?case
  proof (cases "xs = []")
    case True
    then show ?thesis by (simp add: expected_mkdirs.simps dirs_of_def)
  next
    case False
    let ?a = "take MAX_CONCURRENT_WRITES xs" and ?b = "drop MAX_CONCURRENT_WRITES xs"
    from False have "length ?b < length xs" by (simp add: MAX_CONCURRENT_WRITES_def)
    from less [OF this, of "D \<union> dirs_of plan ?a"]
    have "set (expected_mkdirs opts plan (D \<union> dirs_of plan ?a) ?b)
        = (\<lambda>d. Mkdir (path_join [base opts, d])) ` (dirs_of plan ?b - (D \<union> dirs_of plan ?a))" .
    moreover have "dirs_of plan xs = dirs_of plan ?a \<union> dirs_of plan ?b"
      by (simp only: dirs_of_split)
    ultimately have "set (mkdirs_of opts plan D ?a
          @ expected_mkdirs opts plan (D \<union> dirs_of plan ?a) ?b)
        = (\<lambda>d. Mkdir (path_join [base opts, d])) ` (dirs_of plan xs - D)"
      by (auto simp: mkdirs_of_set)
    with False show ?thesis by (subst expected_mkdirs.simps) simp
  qed
qed

lemma expected_length: "length (expected_mkdirs opts plan D xs) \<le> length xs"
proof (induction "length xs" arbitrary: xs D rule: less_induct)
  case less
  show ?case
  proof (cases "xs = []")
    case True
    then show ?thesis by (simp add: expected_mkdirs.simps)
  next
    case False
    let ?a = "take MAX_CONCURRENT_WRITES xs" and ?b = "drop MAX_CONCURRENT_WRITES xs"
    from False have "length ?b < length xs" by (simp add: MAX_CONCURRENT_WRITES_def)
    from less [OF this, of "D \<union> dirs_of plan ?a"]
    have "length (expected_mkdirs opts plan (D \<union> dirs_of plan ?a) ?b) \<le> length ?b" .
    moreover have "length (mkdirs_of opts plan D ?a) \<le> length ?a" by (rule mkdirs_of_length)
    moreover have "length ?a + length ?b = length xs" by simp
    moreover have "length (mkdirs_of opts plan D ?a
          @ expected_mkdirs opts plan (D \<union> dirs_of plan ?a) ?b)
        = length (mkdirs_of opts plan D ?a)
          + length (expected_mkdirs opts plan (D \<union> dirs_of plan ?a) ?b)"
      by (rule length_append)
    ultimately have "length (mkdirs_of opts plan D ?a
          @ expected_mkdirs opts plan (D \<union> dirs_of plan ?a) ?b) \<le> length xs"
      by linarith
    with False show ?thesis by (subst expected_mkdirs.simps) simp
  qed
qed

lemma expected_first_wave:
  assumes "\<forall>x\<in>set xs. plan x \<noteq> None"
  shows "take (min MAX_CONCURRENT_WRITES (length xs)) (expected_mkdirs opts plan {} xs)
     = map (\<lambda>x. Mkdir (path_join [base opts, path_dirname (fst (the (plan x)))]))
         (take MAX_CONCURRENT_WRITES xs)"
proof (cases "xs = []")
  case True
  then show ?thesis by (simp add: expected_mkdirs.simps)
next
  case False
  let ?a = "take MAX_CONCURRENT_WRITES xs"
  have "\<forall>x\<in>set ?a. plan x \<noteq> None" using assms by (meson in_set_takeD)
  then have m: "mkdirs_of opts plan {} ?a
      = map (\<lambda>x. Mkdir (path_join [base opts, path_dirname (fst (the (plan x)))])) ?a"
    by (rule mkdirs_of_empty_cache)
  then have "length (mkdirs_of opts plan {} ?a) = min MAX_CONCURRENT_WRITES (length xs)"
    by (simp add: min.commute)
  moreover have "expected_mkdirs opts plan {} xs
      = mkdirs_of opts plan {} ?a
        @ expected_mkdirs opts plan ({} \<union> dirs_of plan ?a) (drop MAX_CONCURRENT_WRITES xs)"
    using False by (subst expected_mkdirs.simps) simp
  ultimately show ?thesis using m by simp
qed

lemma waves_launch_nonempty: "waves (Launched j # evs) \<noteq> []"
  by (simp split: list.splits event.splits)

lemma waves_append:
  "a = [] \<or> \<not> is_launch (last a) \<Longrightarrow> waves (a @ b) = waves a @ waves b"
proof (induction a)
  case Nil
  then show ?case by simp
next
  case (Cons ev a)
  show ?case
  proof (cases ev)
    case (Launched i)
    with Cons.prems have ne: "a \<noteq> []" by auto
    with Cons.prems have "\<not> is_launch (last a)" by simp
    with Cons.IH have ih: "waves (a @ b) = waves a @ waves b" by simp
    from ne obtain ev' a' where a: "a = ev' # a'" by (cases a) simp_all
    show ?thesis
    proof (cases ev')
      case inner: (Launched j)
      from waves_launch_nonempty [of j a'] obtain w ws where w: "waves (Launched j # a') = w # ws"
        by (cases "waves (Launched j # a')") simp_all
      have "waves (Launched i # Launched j # a') = (i # w) # ws"
        using w by simp
      moreover have "waves (Launched i # Launched j # a' @ b) = (i # w) # ws @ waves b"
        using w ih a inner by simp
      ultimately show ?thesis using Launched a inner by simp
    qed (use Launched a ih in simp_all)
  next
    case (Settled i r)
    with Cons show ?thesis by (cases "a = []") simp_all
  next
    case WaveDone
    with Cons show ?thesis by (cases "a = []") simp_all
  next
    case (Failed e)
    with Cons show ?thesis by (cases "a = []") simp_all
  qed
qed

lemma emit_last:
  "emit_from sched delay cb files i w = (evs, Inr (), w') \<Longrightarrow> evs = [] \<or> last evs = WaveDone"
proof (induction "length files - i" arbitrary: i w evs rule: less_induct)
  case less
  show ?case
  proof (cases rule: emit_cases [of i files sched delay cb w])
    case Done
    with less.prems show ?thesis by simp
  next
    case (Failed acts thrown w1 later w2 n e)
    with less.prems show ?thesis by simp
  next
    case (Continued acts w1 later w2 evs2 res w3)
    with less.prems have res: "res = Inr ()" and w3: "w3 = w'" by simp_all
    have "length files - min (i + MAX_CONCURRENT_WRITES) (length files) < length files - i"
      using Continued(1) by (simp add: MAX_CONCURRENT_WRITES_def)
    moreover from Continued(5) res w3
    have "emit_from sched delay cb files (min (i + MAX_CONCURRENT_WRITES) (length files)) w2
        = (evs2, Inr (), w')" by simp
    ultimately have "evs2 = [] \<or> last evs2 = WaveDone" by (rule less.hyps)
    with Continued(6) less.prems show ?thesis by auto
  qed
qed

lemma chunk_sizes_from:
  "i \<le> n \<Longrightarrow> map length (chunks_from i n)
     = replicate ((n - i) div 64) 64 @ (if (n - i) mod 64 = 0 then [] else [(n - i) mod 64])"
proof (induction "n - i" arbitrary: i rule: less_induct)
  case less
  show ?case
  proof (cases "i < n")
    case False
    with less.prems show ?thesis by (simp add: chunks_from.simps)
  next
    case True
    show ?thesis
    proof (cases "i + 64 \<le> n")
      case full: True
      then have g: "min (i + MAX_CONCURRENT_WRITES) n = i + 64"
        by (simp add: MAX_CONCURRENT_WRITES_def)
      have "n - (i + 64) < n - i" using True by simp
      from less.hyps [OF this] full
      have ih: "map length (chunks_from (i + 64) n)
          = replicate ((n - (i + 64)) div 64) 64
            @ (if (n - (i + 64)) mod 64 = 0 then [] else [(n - (i + 64)) mod 64])"
        by simp
      have d: "(n - i) div 64 = Suc ((n - (i + 64)) div 64)"
        using full by (simp add: le_div_geq)
      have m: "(n - i) mod 64 = (n - (i + 64)) mod 64"
        using full by (simp add: le_mod_geq)
      have "chunks_from i n = [i..<i + 64] # chunks_from (i + 64) n"
        using True g by (subst chunks_from.simps) simp
      with ih d m show ?thesis by simp
    next
      case part: False
      then have g: "min (i + MAX_CONCURRENT_WRITES) n = n"
        by (simp add: MAX_CONCURRENT_WRITES_def)
      have "chunks_from i n = [[i..<n]]"
        using True g by (subst chunks_from.simps) (simp add: chunks_from.simps)
      moreover have "(n - i) div 64 = 0" "(n - i) mod 64 = n - i" using part by simp_all
      ultimately show ?thesis using True by simp
    qed
  qed
qed

lemma writer_result:
  "writeResultFiles sched delay fs h outputFiles assetFiles opts =
     (case emit_from sched delay (planned fs opts (output_plan h opts) (\<lambda>f. UnhandledWrite (file_path f)))
             outputFiles 0 write_start of
        (evs, Inl e, st) \<Rightarrow> (evs, Inl e, st)
      | (evs, Inr u, st) \<Rightarrow>
          (case emit_from sched delay (planned fs opts (asset_plan opts) (\<lambda>a. undefined))
                  (asset_list assetFiles) 0 st of
             (evs', res, st') \<Rightarrow> (evs @ evs', res, st')))"
  by (cases assetFiles)
     (auto simp: writeResultFiles_def emitFilesToDisk_def write_output_file_planned
        copy_asset_file_planned asset_list_def emit_done split: prod.splits sum.splits)

lemma writer_cases [consumes 0, case_names First_failed First_done]:
  assumes "\<And>evs e st.
      emit_from sched delay (planned fs opts (output_plan h opts) (\<lambda>f. UnhandledWrite (file_path f)))
        outputFiles 0 write_start = (evs, Inl e, st)
      \<Longrightarrow> writeResultFiles sched delay fs h outputFiles assetFiles opts = (evs, Inl e, st) \<Longrightarrow> P"
    and "\<And>evs st evs' res st'.
      emit_from sched delay (planned fs opts (output_plan h opts) (\<lambda>f. UnhandledWrite (file_path f)))
        outputFiles 0 write_start = (evs, Inr (), st)
      \<Longrightarrow> emit_from sched delay (planned fs opts (asset_plan opts) (\<lambda>a. undefined))
            (asset_list assetFiles) 0 st = (evs', res, st')
      \<Longrightarrow> writeResultFiles sched delay fs h outputFiles assetFiles opts = (evs @ evs', res, st') \<Longrightarrow> P"
  shows P
proof -
  obtain evs r st where 1:
    "emit_from sched delay (planned fs opts (output_plan h opts) (\<lambda>f. UnhandledWrite (file_path f)))
        outputFiles 0 write_start = (evs, r, st)"
    by (cases "emit_from sched delay (planned fs opts (output_plan h opts) (\<lambda>f. UnhandledWrite (file_path f)))
        outputFiles 0 write_start")
  show ?thesis
  proof (cases r)
    case (Inl e)
    with 1 have "writeResultFiles sched delay fs h outputFiles assetFiles opts = (evs, Inl e, st)"
      by (simp add: writer_result)
    with 1 Inl assms(1) show ?thesis by simp
  next
    case (Inr u)
    obtain evs' res st' where 2:
      "emit_from sched delay (planned fs opts (asset_plan opts) (\<lambda>a. undefined))
            (asset_list assetFiles) 0 st = (evs', res, st')"
      by (cases "emit_from sched delay (planned fs opts (asset_plan opts) (\<lambda>a. undefined))
            (asset_list assetFiles) 0 st")
    with 1 Inr have "writeResultFiles sched delay fs h outputFiles assetFiles opts = (evs @ evs', res, st')"
      by (simp add: writer_result)
    with 1 2 Inr assms(2) show ?thesis by simp
  qed
qed

lemma output_plan_other:
  "\<forall>x destPath c. output_plan h opts x = Some (destPath, c) \<longrightarrow> \<not> is_mkdir c"
  by (auto simp: output_plan_def split: option.splits)

lemma asset_plan_other:
  "\<forall>x destPath c. asset_plan opts x = Some (destPath, c) \<longrightarrow> \<not> is_mkdir c"
  by (auto simp: asset_plan_def)

lemma output_dirs:
  "\<forall>f\<in>set fs. output_plan h opts f \<noteq> None
     \<Longrightarrow> dirs_of (output_plan h opts) fs = output_dir opts ` set fs"
  by (induction fs) (auto simp: dirs_of_def output_plan_def output_dir_def split: option.splits)

lemma asset_dirs: "dirs_of (asset_plan opts) as = asset_dir opts ` set as"
  by (induction as) (auto simp: dirs_of_def asset_plan_def asset_dir_def)

lemma output_calls:
  "c \<in> calls_of (output_plan h opts) fs \<longleftrightarrow>
     (\<exists>f\<in>set fs. \<exists>d. outputDir_of opts (file_type f) = Some d
        \<and> c = WriteFile (path_join [base opts, path_join [d, file_path f]]) (file_contents h f))"
  by (auto simp: calls_of_def output_plan_def split: option.splits)

lemma asset_calls:
  "c \<in> calls_of (asset_plan opts) as \<longleftrightarrow>
     (\<exists>a\<in>set as. c = CopyFile (source a)
        (path_join [base opts, path_join [browser opts, destination a]]))"
  by (auto simp: calls_of_def asset_plan_def)

lemma other_calls: "\<not> is_mkdir c \<Longrightarrow> c \<in> set cs \<longleftrightarrow> c \<in> set (filter (\<lambda>c. \<not> is_mkdir c) cs)"
  by simp

text \<open>What a call other than \<open>mkdir\<close> can be, in any run, and what was called in a run that succeeded.\<close>

lemma writer_calls:
  assumes perm: "\<forall>xs. mset (sched xs) = mset xs"
    and run: "writeResultFiles sched delay fs h outputFiles assetFiles opts = (evs, res, st)"
  shows "set (filter (\<lambda>c. \<not> is_mkdir c) (calls st))
        \<subseteq> calls_of (output_plan h opts) outputFiles
          \<union> calls_of (asset_plan opts) (asset_list assetFiles)"
    and "res = Inr () \<Longrightarrow> set (filter (\<lambda>c. \<not> is_mkdir c) (calls st))
        = calls_of (output_plan h opts) outputFiles
          \<union> calls_of (asset_plan opts) (asset_list assetFiles)"
proof -
  show "set (filter (\<lambda>c. \<not> is_mkdir c) (calls st))
        \<subseteq> calls_of (output_plan h opts) outputFiles
          \<union> calls_of (asset_plan opts) (asset_list assetFiles)"
  proof (cases rule: writer_cases [of sched delay fs opts h outputFiles assetFiles])
    case (First_failed evs1 e st1)
    with run have "st1 = st" by simp
    with emit_planned_any [OF perm First_failed(1)] show ?thesis by auto
  next
    case (First_done evs1 st1 evs2 res2 st2)
    with run have "st2 = st" by simp
    with emit_planned_any [OF perm First_done(1)] emit_planned_any [OF perm First_done(2)]
    show ?thesis by auto
  qed
next
  assume ok: "res = Inr ()"
  show "set (filter (\<lambda>c. \<not> is_mkdir c) (calls st))
        = calls_of (output_plan h opts) outputFiles
          \<union> calls_of (asset_plan opts) (asset_list assetFiles)"
  proof (cases rule: writer_cases [of sched delay fs opts h outputFiles assetFiles])
    case (First_failed evs1 e st1)
    with run ok show ?thesis by simp
  next
    case (First_done evs1 st1 evs2 res2 st2)
    with run ok have st2: "st2 = st" and r2: "res2 = Inr ()" by simp_all
    from emit_planned_ok [OF perm output_plan_other First_done(1)]
    have 1: "set (filter (\<lambda>c. \<not> is_mkdir c) (calls st1)) = calls_of (output_plan h opts) outputFiles"
      by simp
    from First_done(2) r2 have "emit_from sched delay (planned fs opts (asset_plan opts) (\<lambda>a. undefined))
            (asset_list assetFiles) 0 st1 = (evs2, Inr (), st2)" by simp
    from emit_planned_ok [OF perm asset_plan_other this]
    have "set (filter (\<lambda>c. \<not> is_mkdir c) (calls st2))
        = set (filter (\<lambda>c. \<not> is_mkdir c) (calls st1))
          \<union> calls_of (asset_plan opts) (asset_list assetFiles)"
      by simp
    with 1 st2 show ?thesis by simp
  qed
qed

text \<open>
  C5, as amended. The browser and the media kind both resolve to the browser
  subdirectory, the server kind to the server subdirectory and the root kind to the base
  directory itself. In every run, each \<open>writeFile\<close> call writes the contents of one of the
  output files to the base directory joined with (the directory of its kind joined with its
  path); in a run that succeeds, every output file is so written.
\<close>

theorem output_destinations:
  assumes perm: "\<forall>xs. mset (sched xs) = mset xs"
    and run: "writeResultFiles sched delay fs h outputFiles assetFiles opts = (evs, res, st)"
  shows "outputDir_of opts Browser = Some (browser opts)
    \<and> outputDir_of opts Media = Some (browser opts)
    \<and> outputDir_of opts Server = Some (server opts)
    \<and> outputDir_of opts Root = Some []
    \<and> (\<forall>p bytes. WriteFile p bytes \<in> set (calls st) \<longrightarrow>
          (\<exists>f\<in>set outputFiles. \<exists>d. outputDir_of opts (file_type f) = Some d
             \<and> p = path_join [base opts, path_join [d, file_path f]]
             \<and> bytes = file_contents h f))
    \<and> (res = Inr () \<longrightarrow>
          (\<forall>f\<in>set outputFiles. \<exists>d. outputDir_of opts (file_type f) = Some d
             \<and> WriteFile (path_join [base opts, path_join [d, file_path f]]) (file_contents h f)
                 \<in> set (calls st)))"
proof (intro conjI allI impI ballI)
  fix p bytes
  assume "WriteFile p bytes \<in> set (calls st)"
  then have "WriteFile p bytes \<in> set (filter (\<lambda>c. \<not> is_mkdir c) (calls st))" by simp
  with writer_calls(1) [OF perm run]
  have "WriteFile p bytes \<in> calls_of (output_plan h opts) outputFiles
      \<or> WriteFile p bytes \<in> calls_of (asset_plan opts) (asset_list assetFiles)"
    by blast
  then show "\<exists>f\<in>set outputFiles. \<exists>d. outputDir_of opts (file_type f) = Some d
             \<and> p = path_join [base opts, path_join [d, file_path f]]
             \<and> bytes = file_contents h f"
    by (auto simp: output_calls asset_calls)
next
  fix f
  assume ok: "res = Inr ()" and f: "f \<in> set outputFiles"
  from emit_planned_ok [OF perm output_plan_other] run ok
  have "\<forall>x\<in>set outputFiles. output_plan h opts x \<noteq> None"
    by (cases rule: writer_cases [of sched delay fs opts h outputFiles assetFiles]) fastforce+
  with f obtain d where d: "outputDir_of opts (file_type f) = Some d"
    by (auto simp: output_plan_def split: option.splits)
  with f have "WriteFile (path_join [base opts, path_join [d, file_path f]]) (file_contents h f)
      \<in> calls_of (output_plan h opts) outputFiles"
    by (auto simp: output_calls)
  with writer_calls(2) [OF perm run ok]
  have "WriteFile (path_join [base opts, path_join [d, file_path f]]) (file_contents h f)
      \<in> set (calls st)"
    by auto
  with d show "\<exists>d. outputDir_of opts (file_type f) = Some d
             \<and> WriteFile (path_join [base opts, path_join [d, file_path f]]) (file_contents h f)
                 \<in> set (calls st)"
    by simp
qed (simp_all add: outputDir_of_def)

text \<open>
  C10, as amended. In every run, each \<open>copyFile\<close> call copies the source of one of the
  asset records to the base directory joined with (the browser entry of the layout joined
  with the destination of the record); in a run that succeeds, every record is so copied.
  The server and media entries of the layout take no part in the destination.
\<close>

theorem copy_destinations:
  assumes perm: "\<forall>xs. mset (sched xs) = mset xs"
    and run: "writeResultFiles sched delay fs h outputFiles assetFiles opts = (evs, res, st)"
  shows "(\<forall>src dst. CopyFile src dst \<in> set (calls st) \<longrightarrow>
          (\<exists>a\<in>set (asset_list assetFiles). src = source a
             \<and> dst = path_join [base opts, path_join [browser opts, destination a]]))
    \<and> (res = Inr () \<longrightarrow>
          (\<forall>a\<in>set (asset_list assetFiles).
             CopyFile (source a) (path_join [base opts, path_join [browser opts, destination a]])
               \<in> set (calls st)))"
proof (intro conjI allI impI ballI)
  fix src dst
  assume "CopyFile src dst \<in> set (calls st)"
  then have "CopyFile src dst \<in> set (filter (\<lambda>c. \<not> is_mkdir c) (calls st))" by simp
  with writer_calls(1) [OF perm run]
  have "CopyFile src dst \<in> calls_of (output_plan h opts) outputFiles
      \<or> CopyFile src dst \<in> calls_of (asset_plan opts) (asset_list assetFiles)"
    by blast
  then show "\<exists>a\<in>set (asset_list assetFiles). src = source a
             \<and> dst = path_join [base opts, path_join [browser opts, destination a]]"
    by (auto simp: output_calls asset_calls)
next
  fix a
  assume ok: "res = Inr ()" and a: "a \<in> set (asset_list assetFiles)"
  then have "CopyFile (source a) (path_join [base opts, path_join [browser opts, destination a]])
      \<in> calls_of (asset_plan opts) (asset_list assetFiles)"
    by (auto simp: asset_calls)
  with writer_calls(2) [OF perm run ok]
  show "CopyFile (source a) (path_join [base opts, path_join [browser opts, destination a]])
      \<in> set (calls st)"
    by auto
qed

text \<open>
  C4, as amended. In a run that succeeds, the directories created are exactly the
  containing directories of the files written and copied, there are at most as many
  creation calls as files, and every file of the first wave makes its own call: the set of
  known directories only spares a call for a directory that an earlier wave has recorded.
  The creation calls are, wave after wave (the output files first, then the assets), one
  for every file of the wave whose directory no earlier wave has recorded.
\<close>

theorem directory_creations:
  assumes perm: "\<forall>xs. mset (sched xs) = mset xs"
    and run: "writeResultFiles sched delay fs h outputFiles assetFiles opts = (evs, Inr (), st)"
  shows "set (filter is_mkdir (calls st))
        = (\<lambda>d. Mkdir (path_join [base opts, d]))
            ` (output_dir opts ` set outputFiles \<union> asset_dir opts ` set (asset_list assetFiles))
    \<and> length (filter is_mkdir (calls st)) \<le> length outputFiles + length (asset_list assetFiles)
    \<and> take (min 64 (length outputFiles)) (filter is_mkdir (calls st))
        = map (\<lambda>f. Mkdir (path_join [base opts, output_dir opts f])) (take 64 outputFiles)
    \<and> filter is_mkdir (calls st)
        = expected_mkdirs opts (output_plan h opts) {} outputFiles
          @ expected_mkdirs opts (asset_plan opts) (output_dir opts ` set outputFiles)
              (asset_list assetFiles)"
proof (cases rule: writer_cases [of sched delay fs opts h outputFiles assetFiles])
  case (First_failed evs1 e st1)
  with run show ?thesis by simp
next
  case (First_done evs1 st1 evs2 res2 st2)
  with run have st2: "st2 = st" and r2: "res2 = Inr ()" by simp_all
  let ?po = "output_plan h opts" and ?pa = "asset_plan opts"
  let ?as = "asset_list assetFiles"
  from emit_planned_ok [OF perm output_plan_other First_done(1)]
  have all: "\<forall>x\<in>set outputFiles. ?po x \<noteq> None"
    and d1: "directoryExists st1 = dirs_of ?po outputFiles"
    and m1: "filter is_mkdir (calls st1) = expected_mkdirs opts ?po {} outputFiles"
    by simp_all
  from First_done(2) r2 have "emit_from sched delay (planned fs opts ?pa (\<lambda>a. undefined)) ?as 0 st1
      = (evs2, Inr (), st2)" by simp
  from emit_planned_ok [OF perm asset_plan_other this] st2
  have m2: "filter is_mkdir (calls st)
      = filter is_mkdir (calls st1) @ expected_mkdirs opts ?pa (directoryExists st1) ?as"
    by simp
  have mk: "filter is_mkdir (calls st)
      = expected_mkdirs opts ?po {} outputFiles
        @ expected_mkdirs opts ?pa (dirs_of ?po outputFiles) ?as"
    using m1 m2 d1 by simp
  have od: "dirs_of ?po outputFiles = output_dir opts ` set outputFiles"
    using all by (rule output_dirs)
  have "set (filter is_mkdir (calls st))
      = (\<lambda>d. Mkdir (path_join [base opts, d])) ` (dirs_of ?po outputFiles \<union> dirs_of ?pa ?as)"
    unfolding mk by (auto simp: expected_set)
  then have c1: "set (filter is_mkdir (calls st))
        = (\<lambda>d. Mkdir (path_join [base opts, d]))
            ` (output_dir opts ` set outputFiles \<union> asset_dir opts ` set ?as)"
    by (simp only: od asset_dirs)
  have "length (filter is_mkdir (calls st))
      = length (expected_mkdirs opts ?po {} outputFiles)
        + length (expected_mkdirs opts ?pa (dirs_of ?po outputFiles) ?as)"
    unfolding mk by (rule length_append)
  moreover have "length (expected_mkdirs opts ?po {} outputFiles) \<le> length outputFiles"
    by (rule expected_length)
  moreover have "length (expected_mkdirs opts ?pa (dirs_of ?po outputFiles) ?as) \<le> length ?as"
    by (rule expected_length)
  ultimately have c2: "length (filter is_mkdir (calls st)) \<le> length outputFiles + length ?as"
    by linarith
  have first: "take (min MAX_CONCURRENT_WRITES (length outputFiles))
        (expected_mkdirs opts ?po {} outputFiles)
      = map (\<lambda>x. Mkdir (path_join [base opts, path_dirname (fst (the (?po x)))]))
          (take MAX_CONCURRENT_WRITES outputFiles)"
    using all by (rule expected_first_wave)
  have "length (take (min MAX_CONCURRENT_WRITES (length outputFiles))
        (expected_mkdirs opts ?po {} outputFiles)) = min MAX_CONCURRENT_WRITES (length outputFiles)"
    unfolding first by (simp add: min.commute)
  then have "min MAX_CONCURRENT_WRITES (length outputFiles)
      \<le> length (expected_mkdirs opts ?po {} outputFiles)"
    by simp
  then have "take (min MAX_CONCURRENT_WRITES (length outputFiles)) (filter is_mkdir (calls st))
      = take (min MAX_CONCURRENT_WRITES (length outputFiles)) (expected_mkdirs opts ?po {} outputFiles)"
    unfolding mk by simp
  also note first
  also have "map (\<lambda>x. Mkdir (path_join [base opts, path_dirname (fst (the (?po x)))]))
          (take MAX_CONCURRENT_WRITES outputFiles)
      = map (\<lambda>f. Mkdir (path_join [base opts, output_dir opts f]))
          (take MAX_CONCURRENT_WRITES outputFiles)"
  proof (rule map_cong [OF refl])
    fix x assume "x \<in> set (take MAX_CONCURRENT_WRITES outputFiles)"
    then have "x \<in> set outputFiles" by (rule in_set_takeD)
    with all have "?po x \<noteq> None" by simp
    then show "Mkdir (path_join [base opts, path_dirname (fst (the (?po x)))])
        = Mkdir (path_join [base opts, output_dir opts x])"
      by (auto simp: output_plan_def output_dir_def split: option.splits)
  qed
  finally have c3: "take (min 64 (length outputFiles)) (filter is_mkdir (calls st))
        = map (\<lambda>f. Mkdir (path_join [base opts, output_dir opts f])) (take 64 outputFiles)"
    by (simp add: MAX_CONCURRENT_WRITES_def)
  have c4: "filter is_mkdir (calls st)
        = expected_mkdirs opts ?po {} outputFiles
          @ expected_mkdirs opts ?pa (output_dir opts ` set outputFiles) ?as"
    using mk by (simp only: od)
  show ?thesis by (intro conjI c1 c2 c3 c4)
qed

text \<open>
  C9. In every run of \<open>writeResultFiles\<close>, whatever the order of completion, at most 64
  tasks are in flight after any prefix of the trace (each task has at most one file
  operation under way at a time). The waves launched are the chunks of the output files
  followed by the chunks of the assets, as far as the run goes, and all of them when the
  run succeeds; the chunks of \<open>m\<close> items are \<open>m div 64\<close> chunks of 64 and one more of
  \<open>m mod 64\<close> when that is not zero.
\<close>

theorem write_waves:
  assumes perm: "\<forall>xs. mset (sched xs) = mset xs"
    and run: "writeResultFiles sched delay fs h outputFiles assetFiles opts = (evs, res, st)"
  shows "in_flight (take n evs) \<le> 64
    \<and> waves evs = take (length (waves evs))
        (chunks_from 0 (length outputFiles) @ chunks_from 0 (length (asset_list assetFiles)))
    \<and> (res = Inr () \<longrightarrow> waves evs
        = chunks_from 0 (length outputFiles) @ chunks_from 0 (length (asset_list assetFiles)))
    \<and> map length (chunks_from 0 m)
        = replicate (m div 64) 64 @ (if m mod 64 = 0 then [] else [m mod 64])"
proof (cases rule: writer_cases [of sched delay fs opts h outputFiles assetFiles])
  case (First_failed evs1 e st1)
  with run have evs: "evs1 = evs" and res: "res = Inl e" by simp_all
  let ?cb = "planned fs opts (output_plan h opts) (\<lambda>f. UnhandledWrite (file_path f))"
  have "balanced evs"
    using emit_balanced [OF perm, of delay ?cb outputFiles 0 write_start] First_failed(1) evs by simp
  then have c1: "in_flight (take n evs) \<le> 64"
    using balanced_in_flight [of evs n] by (simp add: MAX_CONCURRENT_WRITES_def)
  have w: "waves evs = take (length (waves evs)) (chunks_from 0 (length outputFiles))"
    using emit_waves [of ?cb sched delay outputFiles 0 write_start] First_failed(1) evs
    by (simp add: never_throws_planned)
  from arg_cong [OF w, of length]
  have "length (waves evs) = min (length (chunks_from 0 (length outputFiles))) (length (waves evs))"
    by simp
  then have "length (waves evs) \<le> length (chunks_from 0 (length outputFiles))"
    by linarith
  with w have c2: "waves evs = take (length (waves evs))
        (chunks_from 0 (length outputFiles) @ chunks_from 0 (length (asset_list assetFiles)))"
    by simp
  have c4: "map length (chunks_from 0 m)
        = replicate (m div 64) 64 @ (if m mod 64 = 0 then [] else [m mod 64])"
    using chunk_sizes_from [of 0 m] by simp
  from c1 c2 c4 res show ?thesis by simp
next
  case (First_done evs1 st1 evs2 res2 st2)
  with run have evs: "evs = evs1 @ evs2" and res: "res2 = res" by simp_all
  let ?cb = "planned fs opts (output_plan h opts) (\<lambda>f. UnhandledWrite (file_path f))"
  let ?ca = "planned fs opts (asset_plan opts) (\<lambda>a. undefined)"
  let ?as = "asset_list assetFiles"
  have "balanced evs1"
    using emit_balanced [OF perm, of delay ?cb outputFiles 0 write_start] First_done(1) by simp
  moreover have "balanced evs2"
    using emit_balanced [OF perm, of delay ?ca ?as 0 st1] First_done(2) by simp
  ultimately have "balanced evs" unfolding evs by (rule balanced_append)
  then have c1: "in_flight (take n evs) \<le> 64"
    using balanced_in_flight [of evs n] by (simp add: MAX_CONCURRENT_WRITES_def)
  have w1: "waves evs1 = chunks_from 0 (length outputFiles)"
    using emit_waves [of ?cb sched delay outputFiles 0 write_start] First_done(1) by simp
  have w2: "waves evs2 = take (length (waves evs2)) (chunks_from 0 (length ?as))"
    and w2': "res = Inr () \<longrightarrow> waves evs2 = chunks_from 0 (length ?as)"
    using emit_waves [of ?ca sched delay ?as 0 st1] First_done(2) res
    by (simp_all add: never_throws_planned)
  have "evs1 = [] \<or> last evs1 = WaveDone" using First_done(1) by (rule emit_last)
  then have "evs1 = [] \<or> \<not> is_launch (last evs1)" by auto
  then have w: "waves evs = waves evs1 @ waves evs2" unfolding evs by (rule waves_append)
  have c2: "waves evs = take (length (waves evs))
        (chunks_from 0 (length outputFiles) @ chunks_from 0 (length ?as))"
    unfolding w using w1 w2 by simp
  have c3: "res = Inr () \<longrightarrow> waves evs
        = chunks_from 0 (length outputFiles) @ chunks_from 0 (length ?as)"
    unfolding w using w1 w2' by simp
  have c4: "map length (chunks_from 0 m)
        = replicate (m div 64) 64 @ (if m mod 64 = 0 then [] else [m mod 64])"
    using chunk_sizes_from [of 0 m] by simp
  show ?thesis by (intro conjI c1 c2 c3 c4)
qed

lemmas run_simps =
  writeResultFiles_def emitFilesToDisk_def emit_from.simps launch_group.simps report_def
  settled_events_def
  MAX_CONCURRENT_WRITES_def write_output_file_def copy_asset_file_def outputDir_of_def
  createOutputFileFromText_def ensureDirectoryExists_sync_def ensureDirectoryExists_rest_def
  finish_write_def perform_def never_fails_def example_layout_def flat_layout_def
  path_join_def path_normalize_def path_dirname_def Let_def

text \<open>Three runs, computed.\<close>

lemma run_two_scripts:
  "writeResultFiles id 0 never_fails example_heap two_scripts None example_layout
   = ([Launched 0, Launched 1, Settled 0 None, Settled 1 None, WaveDone], Inr (),
      \<lparr>directoryExists = {''browser''},
       calls = [Mkdir ''dist/browser'', Mkdir ''dist/browser'',
                WriteFile ''dist/browser/a.js'' [], WriteFile ''dist/browser/b.js'' []]\<rparr>)"
  by (simp add: run_simps two_scripts_def)

lemma run_media_file:
  "writeResultFiles id 0 never_fails example_heap [media_file] (Some one_asset) example_layout
   = ([Launched 0, Settled 0 None, WaveDone, Launched 0, Settled 0 None, WaveDone], Inr (),
      \<lparr>directoryExists = {''browser''},
       calls = [Mkdir ''dist/browser'', WriteFile ''dist/browser/logo.png'' [],
                CopyFile ''/src/a.txt'' ''dist/browser/a.txt'']\<rparr>)"
  by (simp add: run_simps media_file_def one_asset_def)

lemma run_flat:
  "writeResultFiles id 0 never_fails example_heap [] (Some one_asset) flat_layout
   = ([Launched 0, Settled 0 None, WaveDone], Inr (),
      \<lparr>directoryExists = {''.''},
       calls = [Mkdir ''dist'', CopyFile ''/src/a.txt'' ''dist/a.txt'']\<rparr>)"
  by (simp add: run_simps one_asset_def)

text \<open>
  C4 as stated fails: two scripts written to the same directory in one wave create that
  directory twice, once per file, though there is one directory only.
\<close>

theorem repeated_mkdir_counterexample:
  "filter is_mkdir (calls (snd (snd
      (writeResultFiles id 0 never_fails example_heap two_scripts None example_layout))))
     = [Mkdir ''dist/browser'', Mkdir ''dist/browser'']"
  unfolding run_two_scripts by simp

text \<open>The amended C4 on the two scripts: one directory, at most two calls.\<close>

theorem directory_creations_witness:
  "set (filter is_mkdir (calls (snd (snd
      (writeResultFiles id 0 never_fails example_heap two_scripts None example_layout)))))
     = {Mkdir ''dist/browser''}
   \<and> length (filter is_mkdir (calls (snd (snd
      (writeResultFiles id 0 never_fails example_heap two_scripts None example_layout))))) \<le> 2"
proof -
  have perm: "\<forall>xs :: (nat \<times> pending_write) list. mset (id xs) = mset xs" by simp
  have dirs: "output_dir example_layout ` set two_scripts = {''browser''}"
    by (simp add: two_scripts_def output_dir_def outputDir_of_def createOutputFileFromText_def
        example_layout_def path_join_def path_normalize_def path_dirname_def Let_def)
  from directory_creations [OF perm run_two_scripts]
  have "set (filter is_mkdir (calls \<lparr>directoryExists = {''browser''},
       calls = [Mkdir ''dist/browser'', Mkdir ''dist/browser'',
                WriteFile ''dist/browser/a.js'' [], WriteFile ''dist/browser/b.js'' []]\<rparr>))
     = (\<lambda>d. Mkdir (path_join [base example_layout, d])) ` {''browser''}
   \<and> length (filter is_mkdir (calls \<lparr>directoryExists = {''browser''},
       calls = [Mkdir ''dist/browser'', Mkdir ''dist/browser'',
                WriteFile ''dist/browser/a.js'' [], WriteFile ''dist/browser/b.js'' []]\<rparr>))
      \<le> length two_scripts + length (asset_list None)"
    unfolding dirs by (simp add: asset_list_def)
  then show ?thesis
    unfolding run_two_scripts
    by (simp add: two_scripts_def asset_list_def example_layout_def path_join_def
        path_normalize_def Let_def)
qed

text \<open>
  C5 as stated fails for the media kind: the image is written under the browser
  subdirectory, not under the media subdirectory.
\<close>

theorem media_destination_counterexample:
  "calls (snd (snd
      (writeResultFiles id 0 never_fails example_heap [media_file] (Some one_asset) example_layout)))
     = [Mkdir ''dist/browser'', WriteFile ''dist/browser/logo.png'' [],
        CopyFile ''/src/a.txt'' ''dist/browser/a.txt'']
   \<and> WriteFile (path_join [base example_layout,
          path_join [media example_layout, file_path media_file]]) []
       \<notin> set (calls (snd (snd
      (writeResultFiles id 0 never_fails example_heap [media_file] (Some one_asset) example_layout))))"
  unfolding run_media_file
  by (simp add: media_file_def createOutputFileFromText_def example_layout_def path_join_def
      path_normalize_def Let_def)

text \<open>The amended C5 on the image and one asset: the image is written under \<open>dist/browser\<close>.\<close>

theorem output_destinations_witness:
  "WriteFile ''dist/browser/logo.png'' []
     \<in> set (calls (snd (snd
      (writeResultFiles id 0 never_fails example_heap [media_file] (Some one_asset) example_layout))))"
proof -
  have perm: "\<forall>xs :: (nat \<times> pending_write) list. mset (id xs) = mset xs" by simp
  from output_destinations [OF perm run_media_file]
  have "\<forall>f\<in>set [media_file]. \<exists>d. outputDir_of example_layout (file_type f) = Some d
      \<and> WriteFile (path_join [base example_layout, path_join [d, file_path f]])
            (file_contents example_heap f)
          \<in> set (calls \<lparr>directoryExists = {''browser''},
       calls = [Mkdir ''dist/browser'', WriteFile ''dist/browser/logo.png'' [],
                CopyFile ''/src/a.txt'' ''dist/browser/a.txt'']\<rparr>)"
    by blast
  then show ?thesis
    unfolding run_media_file by simp
qed

text \<open>
  C10 as stated fails when the browser entry of the layout is the empty string: the asset
  is copied directly into the base directory.
\<close>

theorem copy_into_base_counterexample:
  "calls (snd (snd
      (writeResultFiles id 0 never_fails example_heap [] (Some one_asset) flat_layout)))
     = [Mkdir ''dist'', CopyFile ''/src/a.txt'' ''dist/a.txt'']
   \<and> path_dirname ''dist/a.txt'' = base flat_layout"
  unfolding run_flat by (simp add: flat_layout_def path_dirname_def)

text \<open>The amended C10 on one asset: it is copied to \<open>dist/browser/a.txt\<close>.\<close>

theorem copy_destinations_witness:
  "CopyFile ''/src/a.txt'' ''dist/browser/a.txt''
     \<in> set (calls (snd (snd
      (writeResultFiles id 0 never_fails example_heap [media_file] (Some one_asset) example_layout))))"
proof -
  have perm: "\<forall>xs :: (nat \<times> pending_write) list. mset (id xs) = mset xs" by simp
  from copy_destinations [OF perm run_media_file]
  have "\<forall>a\<in>set (asset_list (Some one_asset)).
      CopyFile (source a) (path_join [base example_layout, path_join [browser example_layout, destination a]])
        \<in> set (calls \<lparr>directoryExists = {''browser''},
       calls = [Mkdir ''dist/browser'', WriteFile ''dist/browser/logo.png'' [],
                CopyFile ''/src/a.txt'' ''dist/browser/a.txt'']\<rparr>)"
    by blast
  then show ?thesis
    unfolding run_media_file by simp
qed

text \<open>C9 on the two scripts: one wave of two tasks.\<close>

theorem write_waves_witness:
  "in_flight (take 2 (fst
      (writeResultFiles id 0 never_fails example_heap two_scripts None example_layout))) \<le> 64
   \<and> waves (fst
      (writeResultFiles id 0 never_fails example_heap two_scripts None example_layout)) = [[0, 1]]"
proof -
  have perm: "\<forall>xs :: (nat \<times> pending_write) list. mset (id xs) = mset xs" by simp
  let ?evs = "[Launched 0, Launched 1, Settled 0 None, Settled 1 None, WaveDone] :: error event list"
  from write_waves [OF perm run_two_scripts, of 2 0]
  have a: "in_flight (take 2 ?evs) \<le> 64"
    and b: "waves ?evs = chunks_from 0 (length two_scripts) @ chunks_from 0 (length (asset_list None))"
    by blast+
  have "chunks_from 0 (length two_scripts) @ chunks_from 0 (length (asset_list None)) = [[0, 1]]"
    by (simp add: two_scripts_def asset_list_def chunks_from.simps MAX_CONCURRENT_WRITES_def)
  with a b show ?thesis
    unfolding run_two_scripts by (simp only: fst_conv)
qed

end
